theory Spec2Isabelle
  imports Complex_Main
begin

section \<open>Strings and numbers as Python has them\<close>

text \<open>
  The engine of \<^verbatim>\<open>file_organizer_standalone.py\<close> works on path names, a parsed
  configuration and the file system. Strings are character lists; the characters of a path
  are taken to be ASCII, so that \<^verbatim>\<open>str.lower\<close> only moves \<^verbatim>\<open>A-Z\<close> to \<^verbatim>\<open>a-z\<close>.
\<close>

definition lower_char :: "char \<Rightarrow> char" where
  "lower_char c = (if 65 \<le> (of_char c :: nat) \<and> (of_char c :: nat) \<le> 90
                   then char_of ((of_char c :: nat) + 32) else c)"

definition lower :: "string \<Rightarrow> string" where
  "lower s = map lower_char s"

text \<open>\<^verbatim>\<open>s.lstrip(c)\<close> for a single character \<open>c\<close>.\<close>

definition lstrip :: "char \<Rightarrow> string \<Rightarrow> string" where
  "lstrip c s = dropWhile (\<lambda>x. x = c) s"

text \<open>\<^verbatim>\<open>s.rfind(c)\<close>: the index of the last \<open>c\<close>; \<open>None\<close> stands for Python's \<open>-1\<close>.\<close>

fun rfind :: "char \<Rightarrow> string \<Rightarrow> nat option" where
  "rfind c [] = None"
| "rfind c (x # xs) =
     (case rfind c xs of
        Some i \<Rightarrow> Some (Suc i)
      | None \<Rightarrow> if x = c then Some 0 else None)"

definition startswith :: "string \<Rightarrow> string \<Rightarrow> bool" where
  "startswith s p = (take (length p) s = p)"

definition endswith :: "string \<Rightarrow> string \<Rightarrow> bool" where
  "endswith s p = (length p \<le> length s \<and> drop (length s - length p) s = p)"

text \<open>The decimal numeral of a counter, as the f-string \<^verbatim>\<open>f"{counter}"\<close> prints it.\<close>

definition digit_char :: "nat \<Rightarrow> char" where
  "digit_char d = ''0123456789'' ! d"

fun str_nat :: "nat \<Rightarrow> string" where
  "str_nat n = (if n < 10 then [digit_char n] else str_nat (n div 10) @ [digit_char (n mod 10)])"

declare str_nat.simps [simp del]

section \<open>Paths (pathlib, POSIX flavour)\<close>

text \<open>
  A \<^verbatim>\<open>pathlib.Path\<close> holds an anchor (\<open>''''\<close>, \<open>''/''\<close> or \<open>''//''\<close>) and the list of its
  components; two paths are equal when both agree. Parsing drops empty components and
  \<open>''.''\<close> and keeps \<open>''..''\<close>, as \<^verbatim>\<open>PurePosixPath\<close> does.
\<close>

datatype path = Path (anchor: string) (parts: "string list")

fun split_sep :: "string \<Rightarrow> string list" where
  "split_sep [] = [[]]"
| "split_sep (c # cs) =
     (if c = CHR ''/'' then [] # split_sep cs
      else (case split_sep cs of
              [] \<Rightarrow> [[c]]
            | w # ws \<Rightarrow> (c # w) # ws))"

definition Path_of :: "string \<Rightarrow> path" where
  "Path_of s =
     Path (if take 2 s = ''//'' \<and> take 3 s \<noteq> ''///'' then ''//''
           else if take 1 s = ''/'' then ''/'' else '''')
          (filter (\<lambda>w. w \<noteq> '''' \<and> w \<noteq> ''.'') (split_sep s))"

fun intercalate :: "string \<Rightarrow> string list \<Rightarrow> string" where
  "intercalate sep [] = []"
| "intercalate sep [w] = w"
| "intercalate sep (w # ws) = w @ sep @ intercalate sep ws"

text \<open>\<^verbatim>\<open>str(p)\<close>.\<close>

definition path_str :: "path \<Rightarrow> string" where
  "path_str p = (if anchor p = '''' \<and> parts p = [] then ''.''
                 else anchor p @ intercalate ''/'' (parts p))"

text \<open>\<^verbatim>\<open>p.name\<close>: the last component, empty when there is none.\<close>

definition path_name :: "path \<Rightarrow> string" where
  "path_name p = (if parts p = [] then '''' else last (parts p))"

text \<open>\<^verbatim>\<open>p.parent\<close>: the anchor is its own parent.\<close>

definition path_parent :: "path \<Rightarrow> path" where
  "path_parent p = (if parts p = [] then p else Path (anchor p) (butlast (parts p)))"

text \<open>
  \<^verbatim>\<open>p.suffix\<close> and \<^verbatim>\<open>p.stem\<close>: the name is cut at its last dot, unless that dot is the
  first or the last character of the name.
\<close>

definition name_suffix :: "string \<Rightarrow> string" where
  "name_suffix n =
     (case rfind CHR ''.'' n of
        None \<Rightarrow> ''''
      | Some i \<Rightarrow> if 0 < i \<and> i + 1 < length n then drop i n else '''')"

definition name_stem :: "string \<Rightarrow> string" where
  "name_stem n =
     (case rfind CHR ''.'' n of
        None \<Rightarrow> n
      | Some i \<Rightarrow> if 0 < i \<and> i + 1 < length n then take i n else n)"

definition path_suffix :: "path \<Rightarrow> string" where
  "path_suffix p = name_suffix (path_name p)"

definition path_stem :: "path \<Rightarrow> string" where
  "path_stem p = name_stem (path_name p)"

text \<open>
  \<^verbatim>\<open>p / n\<close> for a single file name \<open>n\<close>. The program only ever joins a name without a
  separator: the literal \<^verbatim>\<open>"Others"\<close>, the \<^verbatim>\<open>.name\<close> of a path, or a stem with a counter
  and a suffix. Joining the empty name gives \<open>p\<close> back.
\<close>

definition joinpath :: "path \<Rightarrow> string \<Rightarrow> path" where
  "joinpath p n = (if n = '''' then p else Path (anchor p) (parts p @ [n]))"

section \<open>The file system\<close>

text \<open>
  The state the engine reads and writes: the locations of the regular files, of the
  directories, and of the directories in which the process may not create or remove
  entries, with the components of the current directory, where a relative path starts. A
  location is an absolute path without \<open>..\<close>, as the lookup of a path resolves it; the root
  always is a directory. Symbolic links are not modelled, letter case matters, and a
  character is a byte.
\<close>

record fs =
  files :: "path list"
  dirs :: "path list"
  denied :: "path list"
  cwd :: "string list"

datatype error =
    FileExistsError
  | NotADirectoryError
  | FileNotFoundError
  | PermissionError
  | IsADirectoryError
  | NameTooLong
  | SameFileError
  | ShutilError

definition dir_at :: "fs \<Rightarrow> path \<Rightarrow> bool" where
  "dir_at s r = (parts r = [] \<or> r \<in> set (dirs s))"

definition entry_at :: "fs \<Rightarrow> path \<Rightarrow> bool" where
  "entry_at s r = (dir_at s r \<or> r \<in> set (files s))"

text \<open>
  The lookup of a path, component by component from the location \<open>cur\<close>: a component is
  looked up in a directory only (\<^verbatim>\<open>ENOTDIR\<close> under a regular file, \<^verbatim>\<open>ENOENT\<close> under nothing),
  a component of more than 255 bytes is refused there (\<^verbatim>\<open>ENAMETOOLONG\<close>), and \<open>''..''\<close>
  leads to the parent. The result is the location the path names, where there may be
  nothing.
\<close>

fun walk :: "fs \<Rightarrow> path \<Rightarrow> string list \<Rightarrow> error + path" where
  "walk s cur [] = Inr cur"
| "walk s cur (w # ws) =
     (if \<not> dir_at s cur then
        (if cur \<in> set (files s) then Inl NotADirectoryError else Inl FileNotFoundError)
      else if 255 < length w then Inl NameTooLong
      else walk s (if w = ''..'' then path_parent cur
                   else Path (anchor cur) (parts cur @ [w])) ws)"

text \<open>
  A path of 4096 bytes or more, with its final zero byte, is refused before any lookup. An
  absolute path (anchor \<open>/\<close> or \<open>//\<close>) starts at the root, a relative one at the current
  directory.
\<close>

definition start_of :: "fs \<Rightarrow> path \<Rightarrow> path" where
  "start_of s p = Path ''/'' (if anchor p = '''' then cwd s else [])"

definition locate :: "fs \<Rightarrow> path \<Rightarrow> error + path" where
  "locate s p =
     (if 4095 < length (path_str p) then Inl NameTooLong
      else walk s (start_of s p) (parts p))"

text \<open>
  \<^verbatim>\<open>p.exists()\<close> and \<^verbatim>\<open>p.is_dir()\<close> of pathlib, as they are up to Python 3.13: \<^verbatim>\<open>ENOENT\<close>
  and \<^verbatim>\<open>ENOTDIR\<close> mean \<open>False\<close>, any other error of the lookup is raised as \<^verbatim>\<open>OSError\<close>.
\<close>

definition exists :: "fs \<Rightarrow> path \<Rightarrow> error + bool" where
  "exists s p =
     (case locate s p of
        Inl e \<Rightarrow> if e = NameTooLong then Inl e else Inr False
      | Inr r \<Rightarrow> Inr (entry_at s r))"

definition is_dir :: "fs \<Rightarrow> path \<Rightarrow> error + bool" where
  "is_dir s p =
     (case locate s p of
        Inl e \<Rightarrow> if e = NameTooLong then Inl e else Inr False
      | Inr r \<Rightarrow> Inr (dir_at s r))"

text \<open>\<^verbatim>\<open>os.path.isdir\<close> and \<^verbatim>\<open>os.path.exists\<close>: every error means \<open>False\<close>.\<close>

definition os_path_isdir :: "fs \<Rightarrow> path \<Rightarrow> bool" where
  "os_path_isdir s p = (case locate s p of Inl e \<Rightarrow> False | Inr r \<Rightarrow> dir_at s r)"

definition os_path_exists :: "fs \<Rightarrow> path \<Rightarrow> bool" where
  "os_path_exists s p = (case locate s p of Inl e \<Rightarrow> False | Inr r \<Rightarrow> entry_at s r)"

text \<open>\<^verbatim>\<open>os.mkdir(d)\<close>: one directory, in a parent that is there.\<close>

definition os_mkdir :: "fs \<Rightarrow> path \<Rightarrow> error + fs" where
  "os_mkdir s d =
     (case locate s d of
        Inl e \<Rightarrow> Inl e
      | Inr r \<Rightarrow>
          if entry_at s r then Inl FileExistsError
          else if path_parent r \<in> set (denied s) then Inl PermissionError
          else Inr (s\<lparr>dirs := r # dirs s\<rparr>))"

text \<open>
  \<^verbatim>\<open>d.mkdir(parents=True, exist_ok=True)\<close> of pathlib, on the components of \<open>d\<close> in
  reverse. \<^verbatim>\<open>os.mkdir\<close> is tried first. On \<^verbatim>\<open>FileNotFoundError\<close> the parent is made by the
  recursive call and the directory is tried again, without parents. Any other \<^verbatim>\<open>OSError\<close>
  is raised unless \<^verbatim>\<open>d.is_dir()\<close>, which may raise itself. The result is the exception, if
  any, with the state reached: parents made before a failure stay.
\<close>

definition after_oserror :: "fs \<Rightarrow> path \<Rightarrow> error \<Rightarrow> error option \<times> fs" where
  "after_oserror s d e =
     (case is_dir s d of
        Inl e' \<Rightarrow> (Some e', s)
      | Inr b \<Rightarrow> if b then (None, s) else (Some e, s))"

definition mkdir_once :: "fs \<Rightarrow> path \<Rightarrow> error option \<times> fs" where
  "mkdir_once s d =
     (case os_mkdir s d of
        Inr s' \<Rightarrow> (None, s')
      | Inl e \<Rightarrow> if e = FileNotFoundError then (Some e, s) else after_oserror s d e)"

fun mkdir_rev :: "fs \<Rightarrow> string \<Rightarrow> string list \<Rightarrow> error option \<times> fs" where
  "mkdir_rev s a [] = mkdir_once s (Path a [])"
| "mkdir_rev s a (n # rs) =
     (case os_mkdir s (Path a (rev (n # rs))) of
        Inr s' \<Rightarrow> (None, s')
      | Inl e \<Rightarrow>
          if e = FileNotFoundError then
            (case mkdir_rev s a rs of
               (Some e', s1) \<Rightarrow> (Some e', s1)
             | (None, s1) \<Rightarrow> mkdir_once s1 (Path a (rev (n # rs))))
          else after_oserror s (Path a (rev (n # rs))) e)"

definition mkdir_parents :: "fs \<Rightarrow> path \<Rightarrow> error option \<times> fs" where
  "mkdir_parents s d = mkdir_rev s (anchor d) (rev (parts d))"

text \<open>
  \<^verbatim>\<open>os.rename(src, dst)\<close> for a source that is a regular file. When both paths name the
  same file, nothing happens and nothing is checked.
\<close>

definition os_rename :: "fs \<Rightarrow> path \<Rightarrow> path \<Rightarrow> error + fs" where
  "os_rename s src dst =
     (case locate s src of
        Inl e \<Rightarrow> Inl e
      | Inr rs \<Rightarrow>
          (case locate s dst of
             Inl e \<Rightarrow> Inl e
           | Inr rd \<Rightarrow>
               if rs \<notin> set (files s) \<or> dir_at s rs then Inl FileNotFoundError
               else if rs = rd then Inr s
               else if dir_at s rd then Inl IsADirectoryError
               else if path_parent rs \<in> set (denied s) \<or> path_parent rd \<in> set (denied s)
                 then Inl PermissionError
               else Inr (s\<lparr>files := rd # removeAll rs (removeAll rd (files s))\<rparr>)))"

text \<open>
  The copy of \<^verbatim>\<open>shutil.move\<close>'s fallback (\<^verbatim>\<open>copy2\<close>): it refuses to copy a file onto itself,
  writes into a destination file that is there, whatever the directory allows, and creates
  it otherwise.
\<close>

definition copy_file :: "fs \<Rightarrow> path \<Rightarrow> path \<Rightarrow> error + fs" where
  "copy_file s src dst =
     (case locate s src of
        Inl e \<Rightarrow> Inl e
      | Inr rs \<Rightarrow>
          (case locate s dst of
             Inl e \<Rightarrow> Inl e
           | Inr rd \<Rightarrow>
               if rs \<notin> set (files s) \<or> dir_at s rs then Inl FileNotFoundError
               else if rs = rd then Inl SameFileError
               else if dir_at s rd then Inl IsADirectoryError
               else if rd \<in> set (files s) then Inr s
               else if path_parent rd \<in> set (denied s) then Inl PermissionError
               else Inr (s\<lparr>files := rd # files s\<rparr>)))"

definition os_unlink :: "fs \<Rightarrow> path \<Rightarrow> error + fs" where
  "os_unlink s p =
     (case locate s p of
        Inl e \<Rightarrow> Inl e
      | Inr r \<Rightarrow>
          if r \<notin> set (files s) \<or> dir_at s r then Inl FileNotFoundError
          else if path_parent r \<in> set (denied s) then Inl PermissionError
          else Inr (s\<lparr>files := removeAll r (files s)\<rparr>))"

text \<open>
  \<^verbatim>\<open>shutil.move(src, dst)\<close> for a source that is a regular file: a destination that is a
  directory receives the file under its own name, and refuses when that name is taken
  there. When the rename is refused the file is copied and the source unlinked, so a
  failure can leave the copy behind: the result is the error, if any, with the state
  reached.
\<close>

definition move_to :: "fs \<Rightarrow> path \<Rightarrow> path \<Rightarrow> error option \<times> fs" where
  "move_to s src real_dst =
     (case os_rename s src real_dst of
        Inr s' \<Rightarrow> (None, s')
      | Inl _ \<Rightarrow>
          (case copy_file s src real_dst of
             Inl e \<Rightarrow> (Some e, s)
           | Inr s1 \<Rightarrow>
               (case os_unlink s1 src of
                  Inl e \<Rightarrow> (Some e, s1)
                | Inr s2 \<Rightarrow> (None, s2))))"

definition shutil_move :: "fs \<Rightarrow> path \<Rightarrow> path \<Rightarrow> error option \<times> fs" where
  "shutil_move s src dst =
     (if os_path_isdir s dst then
        (let real_dst = joinpath dst (path_name src) in
         if os_path_exists s real_dst then (Some ShutilError, s) else move_to s src real_dst)
      else move_to s src dst)"

section \<open>The configuration\<close>

text \<open>
  The parsed JSON configuration. A key that may be missing is an \<open>option\<close>; the
  categories keep the order of the file, which is the order Python's \<^verbatim>\<open>dict\<close> iterates in.
\<close>

record category_info =
  folder_path :: "string option"
  enabled :: "bool option"
  extensions :: "string list option"

record config =
  downloads_folder :: "string option"
  handle_duplicates :: "string option"
  categories :: "(string \<times> category_info) list option"

text \<open>\<^verbatim>\<open>d.get(key, default)\<close> on the value found under the key, if any.\<close>

definition get_or :: "'a option \<Rightarrow> 'a \<Rightarrow> 'a" where
  "get_or v d = (case v of None \<Rightarrow> d | Some x \<Rightarrow> x)"

section \<open>The categorizer\<close>

fun category_loop :: "string \<Rightarrow> (string \<times> category_info) list \<Rightarrow> string" where
  "category_loop file_ext [] = ''Others''"
| "category_loop file_ext ((category, info) # rest) =
     (if get_or (enabled info) True \<and> file_ext \<in> set (get_or (extensions info) [])
      then category
      else category_loop file_ext rest)"

definition get_file_category :: "config \<Rightarrow> string \<Rightarrow> string" where
  "get_file_category cfg file_path =
     category_loop (lstrip CHR ''.'' (lower (path_suffix (Path_of file_path))))
       (get_or (categories cfg) [])"

section \<open>The destination resolver\<close>

text \<open>
  \<open>home\<close> is \<^verbatim>\<open>Path.home()\<close>. The result is the exception raised by a \<^verbatim>\<open>mkdir\<close>, or the
  returned value (\<open>None\<close> or a path), with the file system reached.
\<close>

definition configured_downloads :: "config \<Rightarrow> path \<Rightarrow> path" where
  "configured_downloads cfg home =
     Path_of (get_or (downloads_folder cfg) (path_str (joinpath home ''Downloads'')))"

definition get_destination_path ::
  "config \<Rightarrow> path \<Rightarrow> fs \<Rightarrow> string \<Rightarrow> string \<Rightarrow> (error + path option) \<times> fs" where
  "get_destination_path cfg home s file_path category =
     (case map_of (get_or (categories cfg) []) category of
        Some category_info \<Rightarrow>
          (case folder_path category_info of
             None \<Rightarrow> (Inr None, s)
           | Some fp \<Rightarrow>
               if fp = '''' then (Inr None, s)
               else (case mkdir_parents s (Path_of fp) of
                       (Some e, s1) \<Rightarrow> (Inl e, s1)
                     | (None, s1) \<Rightarrow>
                         (Inr (Some (joinpath (Path_of fp) (path_name (Path_of file_path)))), s1)))
      | None \<Rightarrow>
          (let others_folder = joinpath (configured_downloads cfg home) ''Others'' in
           case mkdir_parents s others_folder of
             (Some e, s1) \<Rightarrow> (Inl e, s1)
           | (None, s1) \<Rightarrow>
               (case mkdir_parents s1 others_folder of
                  (Some e, s2) \<Rightarrow> (Inl e, s2)
                | (None, s2) \<Rightarrow>
                    (Inr (Some (joinpath others_folder (path_name (Path_of file_path)))), s2))))"

section \<open>Duplicates\<close>

text \<open>The \<open>k\<close>-th name the rename loop tries: \<^verbatim>\<open>f"{file_stem}_{counter}{file_suffix}"\<close>.\<close>

definition new_name :: "string \<Rightarrow> string \<Rightarrow> nat \<Rightarrow> string" where
  "new_name file_stem file_suffix counter = file_stem @ ''_'' @ str_nat counter @ file_suffix"

definition candidate :: "path \<Rightarrow> nat \<Rightarrow> path" where
  "candidate original_dest_path counter =
     joinpath (path_parent original_dest_path)
       (new_name (path_stem original_dest_path) (path_suffix original_dest_path) counter)"

text \<open>The counters from \<open>c\<close> on whose candidate is found to exist: the loop's variant.\<close>

definition taken_from :: "fs \<Rightarrow> path \<Rightarrow> nat \<Rightarrow> nat set" where
  "taken_from s d c = {k. c \<le> k \<and> exists s (candidate d k) = Inr True}"

lemma digit_char_inj: "a < 10 \<Longrightarrow> b < 10 \<Longrightarrow> digit_char a = digit_char b \<Longrightarrow> a = b"
proof -
  assume a: "a < 10" and b: "b < 10" and e: "digit_char a = digit_char b"
  have d: "distinct ''0123456789''" by simp
  have l: "length ''0123456789'' = 10" by simp
  from e have "''0123456789'' ! a = ''0123456789'' ! b" by (simp only: digit_char_def)
  with d a b l show "a = b" by (metis nth_eq_iff_index_eq)
qed

lemma str_nat_nonempty: "str_nat n \<noteq> []"
  by (subst str_nat.simps) simp

lemma str_nat_last: "last (str_nat n) = digit_char (n mod 10)"
  by (subst str_nat.simps) simp

lemma str_nat_butlast: "butlast (str_nat n) = (if n < 10 then [] else str_nat (n div 10))"
  by (subst str_nat.simps) simp

lemma str_nat_inj: "str_nat n = str_nat m \<Longrightarrow> n = m"
proof (induction n arbitrary: m rule: less_induct)
  case (less n)
  from less.prems have l: "digit_char (n mod 10) = digit_char (m mod 10)"
    by (metis str_nat_last)
  then have md: "n mod 10 = m mod 10"
    by (intro digit_char_inj) simp_all
  from less.prems have b: "butlast (str_nat n) = butlast (str_nat m)" by simp
  show ?case
  proof (cases "n < 10")
    case True
    with b have "m < 10" using str_nat_nonempty [of "m div 10"]
      by (auto simp: str_nat_butlast split: if_splits)
    with True md show ?thesis by simp
  next
    case False
    with b have m: "\<not> m < 10" using str_nat_nonempty [of "n div 10"]
      by (auto simp: str_nat_butlast split: if_splits)
    with False b have "str_nat (n div 10) = str_nat (m div 10)"
      by (simp add: str_nat_butlast)
    moreover from False have "n div 10 < n" by simp
    ultimately have "n div 10 = m div 10" by (rule less.IH [rotated])
    with md show ?thesis by (metis div_mult_mod_eq)
  qed
qed

lemma new_name_inj: "new_name st su j = new_name st su k \<Longrightarrow> j = k"
  by (simp add: new_name_def str_nat_inj)

lemma new_name_nonempty: "new_name st su k \<noteq> []"
  by (simp add: new_name_def)

lemma new_name_not_dotdot: "new_name st su k \<noteq> ''..''"
proof
  assume "new_name st su k = ''..''"
  then have "set (new_name st su k) = set ''..''" by simp
  then show False by (auto simp: new_name_def)
qed

lemma candidate_parts:
  "parts (candidate d k) = parts (path_parent d) @ [new_name (path_stem d) (path_suffix d) k]"
  "anchor (candidate d k) = anchor d"
  by (simp_all add: candidate_def joinpath_def new_name_nonempty path_parent_def)

text \<open>The lookup of a path goes through the lookup of its parent.\<close>

lemma walk_append:
  "walk s cur (xs @ ys) = (case walk s cur xs of Inl e \<Rightarrow> Inl e | Inr c \<Rightarrow> walk s c ys)"
  by (induction xs arbitrary: cur) simp_all

lemma parts_location: "parts (Path a ws) = [] \<longleftrightarrow> ws = []"
  by simp

lemma exists_candidate:
  assumes "exists s (candidate d k) = Inr True"
  shows "\<exists>c. walk s (start_of s d) (parts (path_parent d)) = Inr c
           \<and> Path (anchor c) (parts c @ [new_name (path_stem d) (path_suffix d) k])
               \<in> set (dirs s) \<union> set (files s)"
proof -
  let ?n = "new_name (path_stem d) (path_suffix d) k"
  have st: "start_of s (candidate d k) = start_of s d"
    by (simp add: start_of_def candidate_parts)
  from assms obtain r where r: "locate s (candidate d k) = Inr r" "entry_at s r"
    by (auto simp: exists_def split: sum.splits if_splits)
  from r(1) have w: "walk s (start_of s d) (parts (path_parent d) @ [?n]) = Inr r"
    by (simp add: locate_def candidate_parts st split: if_splits)
  then obtain c where c: "walk s (start_of s d) (parts (path_parent d)) = Inr c"
      "walk s c [?n] = Inr r"
    by (auto simp: walk_append split: sum.splits)
  from c(2) have "r = Path (anchor c) (parts c @ [?n])"
    by (simp add: new_name_not_dotdot split: if_splits)
  with r(2) c(1) show ?thesis by (auto simp: entry_at_def dir_at_def)
qed

lemma finite_taken: "finite {k. exists s (candidate d k) = Inr True}"
proof (cases "walk s (start_of s d) (parts (path_parent d))")
  case (Inl e)
  then have "{k. exists s (candidate d k) = Inr True} = {}"
    using exists_candidate [of s d] by auto
  then show ?thesis by simp
next
  case (Inr c)
  let ?f = "\<lambda>k. Path (anchor c) (parts c @ [new_name (path_stem d) (path_suffix d) k])"
  have "inj ?f" by (rule injI) (auto dest: new_name_inj)
  then have "finite (?f -` (set (dirs s) \<union> set (files s)))"
    by (intro finite_vimageI) simp_all
  moreover have "{k. exists s (candidate d k) = Inr True} \<subseteq> ?f -` (set (dirs s) \<union> set (files s))"
    using exists_candidate [of s d] Inr by auto
  ultimately show ?thesis by (rule rev_finite_subset)
qed

lemma finite_taken_from: "finite (taken_from s d c)"
  by (rule finite_subset [OF _ finite_taken [of s d]]) (auto simp: taken_from_def)

lemma taken_from_step_taken:
  "exists s (candidate d c) = Inr True
     \<Longrightarrow> card (taken_from s d (Suc c)) < card (taken_from s d c)"
proof -
  assume e: "exists s (candidate d c) = Inr True"
  then have "c \<in> taken_from s d c" and "c \<notin> taken_from s d (Suc c)"
    by (simp_all add: taken_from_def)
  moreover have "taken_from s d (Suc c) \<subseteq> taken_from s d c"
    by (auto simp: taken_from_def)
  ultimately have "taken_from s d (Suc c) \<subset> taken_from s d c" by blast
  then show ?thesis by (rule psubset_card_mono [OF finite_taken_from])
qed

lemma taken_from_step_le: "card (taken_from s d (Suc c)) \<le> card (taken_from s d c)"
  by (intro card_mono finite_taken_from) (auto simp: taken_from_def)

text \<open>
  The \<^verbatim>\<open>while dest_path.exists()\<close> loop of \<^verbatim>\<open>handle_duplicate\<close>: it goes on while the probe
  answers \<open>True\<close>, returns the path when it answers \<open>False\<close>, and is left by the exception
  when the probe raises. It ends because the candidate names are pairwise different and
  only finitely many paths exist.
\<close>

function rename_loop :: "fs \<Rightarrow> path \<Rightarrow> path \<Rightarrow> nat \<Rightarrow> error + path" where
  "rename_loop s original_dest_path dest_path counter =
     (if exists s dest_path = Inr True
      then rename_loop s original_dest_path (candidate original_dest_path counter) (counter + 1)
      else (case exists s dest_path of
              Inl e \<Rightarrow> Inl e
            | Inr _ \<Rightarrow> Inr dest_path))"
  by pat_completeness auto
termination
proof (relation "measure (\<lambda>(s, d, p, c). 2 * card (taken_from s d c)
                                          + (if exists s p = Inr True then 1 else 0))")
  show "wf (measure (\<lambda>(s, d, p, c). 2 * card (taken_from s d c)
                                      + (if exists s p = Inr True then 1 else 0)))"
    by simp
next
  fix s d p c
  assume "exists s p = Inr True"
  then show "((s, d, candidate d c, c + 1), (s, d, p, c))
      \<in> measure (\<lambda>(s, d, p, c). 2 * card (taken_from s d c)
                                   + (if exists s p = Inr True then 1 else 0))"
    using taken_from_step_taken [of s d c] taken_from_step_le [of s d c]
    by auto
qed

declare rename_loop.simps [simp del]

text \<open>
  \<^verbatim>\<open>handle_duplicate\<close>: \<open>Inl\<close> is the exception of an existence probe, \<open>Inr\<close> the returned
  value.
\<close>

definition handle_duplicate :: "config \<Rightarrow> fs \<Rightarrow> path \<Rightarrow> path \<Rightarrow> error + path option" where
  "handle_duplicate cfg s src_path dest_path =
     (case exists s dest_path of
        Inl e \<Rightarrow> Inl e
      | Inr found \<Rightarrow>
          if \<not> found then Inr (Some dest_path)
          else (let handle_method = get_or (handle_duplicates cfg) ''rename'' in
                if handle_method = ''skip'' then Inr None
                else if handle_method = ''overwrite'' then Inr (Some dest_path)
                else (case rename_loop s dest_path dest_path 1 of
                        Inl e \<Rightarrow> Inl e
                      | Inr p \<Rightarrow> Inr (Some p))))"

section \<open>The readiness detector\<close>

text \<open>
  What \<^verbatim>\<open>file_path.stat()\<close> gives at one poll: a size, \<^verbatim>\<open>FileNotFoundError\<close>, or another
  exception. The polls are a function of the poll's index; the clock of the model advances
  by \<^verbatim>\<open>time.sleep(check_interval)\<close> only. Times are rationals: the default interval
  \<open>0.5\<close> and its multiples up to \<open>30\<close> are exact as floats.
\<close>

datatype stat_result = Size nat | Gone | StatFailed

text \<open>
  The \<^verbatim>\<open>while total_wait_time < max_wait_time\<close> loop. The result is the returned boolean with
  \<^verbatim>\<open>total_wait_time\<close> at the return; \<open>None\<close> when the loop never returns.
\<close>

partial_function (option) ready_loop ::
  "(nat \<Rightarrow> stat_result) \<Rightarrow> rat \<Rightarrow> rat \<Rightarrow> rat \<Rightarrow> nat \<Rightarrow> int \<Rightarrow> rat \<Rightarrow> rat
     \<Rightarrow> (bool \<times> rat) option" where
  "ready_loop polls stability_period check_interval max_wait_time k last_size stable_time
       total_wait_time =
     (if total_wait_time < max_wait_time then
        (case polls k of
           Size current_size \<Rightarrow>
             if int current_size = last_size then
               (if stable_time + check_interval \<ge> stability_period
                then Some (True, total_wait_time)
                else ready_loop polls stability_period check_interval max_wait_time (Suc k)
                       last_size (stable_time + check_interval)
                       (total_wait_time + check_interval))
             else ready_loop polls stability_period check_interval max_wait_time (Suc k)
                    (int current_size) 0 (total_wait_time + check_interval)
         | Gone \<Rightarrow> Some (False, total_wait_time)
         | StatFailed \<Rightarrow> Some (False, total_wait_time))
      else Some (False, total_wait_time))"

declare ready_loop.simps [code]

text \<open>
  \<^verbatim>\<open>_is_file_ready\<close>: the existence probe before the loop is outside the \<^verbatim>\<open>try\<close>, so its
  exception leaves the function (\<open>Inl\<close>).
\<close>

definition is_file_ready_at ::
  "fs \<Rightarrow> (nat \<Rightarrow> stat_result) \<Rightarrow> path \<Rightarrow> rat \<Rightarrow> rat \<Rightarrow> rat
     \<Rightarrow> (error + bool \<times> rat) option" where
  "is_file_ready_at s polls file_path stability_period check_interval max_wait_time =
     (case exists s file_path of
        Inl e \<Rightarrow> Some (Inl e)
      | Inr found \<Rightarrow>
          if \<not> found then Some (Inr (False, 0))
          else map_option Inr
                 (ready_loop polls stability_period check_interval max_wait_time 0 (- 1) 0 0))"

definition is_file_ready ::
  "fs \<Rightarrow> (nat \<Rightarrow> stat_result) \<Rightarrow> path \<Rightarrow> rat \<Rightarrow> rat \<Rightarrow> rat \<Rightarrow> (error + bool) option" where
  "is_file_ready s polls file_path stability_period check_interval max_wait_time =
     map_option (map_sum id fst)
       (is_file_ready_at s polls file_path stability_period check_interval max_wait_time)"

section \<open>The orchestrator\<close>

text \<open>
  One outcome per \<^verbatim>\<open>return\<close> of \<^verbatim>\<open>organize_file\<close>: \<^verbatim>\<open>return True\<close> after the move, each
  \<^verbatim>\<open>return False\<close> of the \<^verbatim>\<open>try\<close> block with its reason, and the \<^verbatim>\<open>return False\<close> of the
  \<^verbatim>\<open>except\<close> clause with the exception caught.
\<close>

datatype skip_reason =
    NotFound
  | HiddenOrTemporary
  | NotInDownloads
  | NotReady
  | NoDestination
  | AlreadyOrganized
  | DuplicateSkipped

datatype outcome =
    Moved path path string
  | Skipped skip_reason
  | Failed error

fun returned :: "outcome \<Rightarrow> bool" where
  "returned (Moved src dst category) = True"
| "returned (Skipped r) = False"
| "returned (Failed e) = False"

text \<open>
  The \<^verbatim>\<open>try\<close> block: \<open>Inl\<close> is an exception raised in it, with the file system at that
  moment; \<open>None\<close> is a readiness wait that never ends. The file system is the one of the
  first check throughout; what other programs do to the file meanwhile shows in the polls.
  The readiness check runs with its default arguments. \<^verbatim>\<open>shutil.move\<close> is given the
  two paths as strings; the model hands it the paths themselves.
\<close>

definition organize_try ::
  "config \<Rightarrow> path \<Rightarrow> (nat \<Rightarrow> stat_result) \<Rightarrow> fs \<Rightarrow> string
     \<Rightarrow> ((error \<times> fs) + (outcome \<times> fs)) option" where
  "organize_try cfg home polls s file_path_arg =
     (let file_path = Path_of file_path_arg in
      case exists s file_path of
        Inl e \<Rightarrow> Some (Inl (e, s))
      | Inr found \<Rightarrow>
          if \<not> found then Some (Inr (Skipped NotFound, s))
          else if startswith (path_name file_path) ''.'' \<or> endswith (path_name file_path) ''.tmp''
            then Some (Inr (Skipped HiddenOrTemporary, s))
          else
            (case is_dir s file_path of
               Inl e \<Rightarrow> Some (Inl (e, s))
             | Inr directory \<Rightarrow>
                 if directory then Some (Inr (Skipped HiddenOrTemporary, s))
                 else if path_parent file_path \<noteq> configured_downloads cfg home
                   then Some (Inr (Skipped NotInDownloads, s))
                 else
                   (case is_file_ready s polls file_path 2 (1 / 2) 30 of
                      None \<Rightarrow> None
                    | Some (Inl e) \<Rightarrow> Some (Inl (e, s))
                    | Some (Inr ready) \<Rightarrow>
                        if \<not> ready then Some (Inr (Skipped NotReady, s))
                        else
                          (let category = get_file_category cfg (path_str file_path) in
                           case get_destination_path cfg home s (path_str file_path) category of
                             (Inl e, s1) \<Rightarrow> Some (Inl (e, s1))
                           | (Inr None, s1) \<Rightarrow> Some (Inr (Skipped NoDestination, s1))
                           | (Inr (Some dest_path), s1) \<Rightarrow>
                               if path_parent file_path = path_parent dest_path
                               then Some (Inr (Skipped AlreadyOrganized, s1))
                               else
                                 (case handle_duplicate cfg s1 file_path dest_path of
                                    Inl e \<Rightarrow> Some (Inl (e, s1))
                                  | Inr None \<Rightarrow> Some (Inr (Skipped DuplicateSkipped, s1))
                                  | Inr (Some final_dest_path) \<Rightarrow>
                                      (case shutil_move s1 file_path final_dest_path of
                                         (Some e, s2) \<Rightarrow> Some (Inl (e, s2))
                                       | (None, s2) \<Rightarrow>
                                           Some (Inr (Moved file_path final_dest_path category,
                                                      s2))))))))"

text \<open>\<^verbatim>\<open>organize_file\<close>: the \<^verbatim>\<open>try\<close> block under \<^verbatim>\<open>except Exception\<close>.\<close>

definition organize_file ::
  "config \<Rightarrow> path \<Rightarrow> (nat \<Rightarrow> stat_result) \<Rightarrow> fs \<Rightarrow> string \<Rightarrow> (outcome \<times> fs) option" where
  "organize_file cfg home polls s file_path_arg =
     (case organize_try cfg home polls s file_path_arg of
        None \<Rightarrow> None
      | Some (Inl (e, s')) \<Rightarrow> Some (Failed e, s')
      | Some (Inr r) \<Rightarrow> Some r)"

section \<open>The specification's own definitions\<close>

text \<open>
  The smallest counter from \<open>c\<close> on at which the rename loop stops: the first whose candidate
  is not found to exist.
\<close>

definition first_stop :: "fs \<Rightarrow> path \<Rightarrow> nat \<Rightarrow> nat" where
  "first_stop s d c = (LEAST k. c \<le> k \<and> exists s (candidate d k) \<noteq> Inr True)"

text \<open>
  The categorizer as the specification words it: the extension is the suffix without its
  leading separator, lower-cased; the first enabled rule whose extension set holds it gives
  the category, and \<^verbatim>\<open>"Others"\<close> is the answer when there is none.
\<close>

definition rule_enabled :: "category_info \<Rightarrow> bool" where
  "rule_enabled info = (enabled info \<noteq> Some False)"

definition rule_extensions :: "category_info \<Rightarrow> string set" where
  "rule_extensions info = (case extensions info of None \<Rightarrow> {} | Some es \<Rightarrow> set es)"

definition spec_extension :: "string \<Rightarrow> string" where
  "spec_extension file_path = lower (drop 1 (path_suffix (Path_of file_path)))"

definition classify :: "(string \<times> category_info) list \<Rightarrow> string \<Rightarrow> string" where
  "classify rules file_path =
     (case List.find (\<lambda>(name, info). rule_enabled info \<and> spec_extension file_path \<in> rule_extensions info) rules of
        None \<Rightarrow> ''Others''
      | Some (name, info) \<Rightarrow> name)"


text \<open>
  The stable-elapsed counter as the specification words it: after a poll it is \<open>0\<close> when
  the observation differs from the previous poll's (and at the first poll), and the previous
  value plus the poll interval otherwise.
\<close>

fun stable_elapsed :: "(nat \<Rightarrow> stat_result) \<Rightarrow> rat \<Rightarrow> nat \<Rightarrow> rat" where
  "stable_elapsed polls poll_interval 0 = 0"
| "stable_elapsed polls poll_interval (Suc k) =
     (if polls (Suc k) = polls k then stable_elapsed polls poll_interval k + poll_interval else 0)"

text \<open>
  The variables of the loop when poll \<open>k\<close> begins, and the condition under which it gets
  there: every earlier poll saw a size, in time, with the counter below the threshold.
\<close>

fun last_size_at :: "(nat \<Rightarrow> stat_result) \<Rightarrow> nat \<Rightarrow> int" where
  "last_size_at polls 0 = - 1"
| "last_size_at polls (Suc k) = (case polls k of Size n \<Rightarrow> int n | _ \<Rightarrow> - 1)"

fun stable_time_at :: "(nat \<Rightarrow> stat_result) \<Rightarrow> rat \<Rightarrow> nat \<Rightarrow> rat" where
  "stable_time_at polls ci 0 = 0"
| "stable_time_at polls ci (Suc k) = stable_elapsed polls ci k"

definition quiet_before :: "(nat \<Rightarrow> stat_result) \<Rightarrow> rat \<Rightarrow> rat \<Rightarrow> rat \<Rightarrow> nat \<Rightarrow> bool" where
  "quiet_before polls sp ci mw K =
     (\<forall>k<K. (\<exists>n. polls k = Size n) \<and> stable_elapsed polls ci k < sp \<and> of_nat k * ci < mw)"

section \<open>Examples\<close>

text \<open>
  The destination folder of the spec's example, holding \<^verbatim>\<open>photo.jpg\<close> and
  \<^verbatim>\<open>photo_1.jpg\<close>, and a configuration with a given duplicate policy.
\<close>

definition photo_fs :: fs where
  "photo_fs =
     \<lparr>files = [Path ''/'' [''dl'', ''Images'', ''photo.jpg''],
               Path ''/'' [''dl'', ''Images'', ''photo_1.jpg'']],
      dirs = [Path ''/'' [''dl''], Path ''/'' [''dl'', ''Images'']],
      denied = [], cwd = []\<rparr>"

definition policy_cfg :: "string option \<Rightarrow> config" where
  "policy_cfg m = \<lparr>downloads_folder = Some ''/dl'', handle_duplicates = m, categories = None\<rparr>"

definition rules_cfg :: "(string \<times> category_info) list \<Rightarrow> config" where
  "rules_cfg rules = \<lparr>downloads_folder = Some ''/dl'', handle_duplicates = Some ''rename'',
     categories = Some rules\<rparr>"

definition rule :: "string \<Rightarrow> bool \<Rightarrow> string list \<Rightarrow> category_info" where
  "rule folder en exts = \<lparr>folder_path = Some folder, enabled = Some en, extensions = Some exts\<rparr>"

definition overlap_rules :: "(string \<times> category_info) list" where
  "overlap_rules =
     [(''Off'', rule ''/dl/Off'' False [''jpg'']),
      (''Images'', rule ''/dl/Images'' True [''jpg'', ''png'']),
      (''Pictures'', rule ''/dl/Pictures'' True [''jpg''])]"


text \<open>
  The spec's end-to-end example: watched folder \<^verbatim>\<open>/dl\<close>, images to \<^verbatim>\<open>/dl/Images\<close>, and a
  category without a folder; poll sequences of a finished file, of one that keeps growing,
  and of one that disappears; a file size that grows over the first three polls.
\<close>

definition home_dir :: path where
  "home_dir = Path_of ''/home/user''"

definition gap_rule :: category_info where
  "gap_rule = \<lparr>folder_path = Some '''', enabled = Some True, extensions = Some [''pdf'']\<rparr>"

definition example_cfg :: config where
  "example_cfg =
     rules_cfg [(''Images'', rule ''/dl/Images'' True [''jpg'', ''png'']), (''Documents'', gap_rule)]"

definition example_fs :: fs where
  "example_fs =
     \<lparr>files = [Path_of ''/dl/photo.jpg'', Path_of ''/dl/Images/photo.jpg'',
               Path_of ''/dl/unknown.xyz'', Path_of ''/dl/report.pdf''],
      dirs = [Path_of ''/dl'', Path_of ''/dl/Images''],
      denied = [], cwd = []\<rparr>"

definition steady :: "nat \<Rightarrow> stat_result" where
  "steady k = Size 5"

definition growing :: "nat \<Rightarrow> stat_result" where
  "growing k = Size k"

definition vanishing :: "nat \<Rightarrow> stat_result" where
  "vanishing k = (if k < 2 then Size 5 else Gone)"

definition three_polls :: "rat \<Rightarrow> nat" where
  "three_polls t = (if t < 1 / 2 then 10 else if t < 3 / 4 then 20 else 30)"


definition others_fs :: fs where
  "others_fs = example_fs\<lparr>dirs := Path_of ''/dl/Others'' # dirs example_fs\<rparr>"

definition locked_fs :: fs where
  "locked_fs = example_fs\<lparr>denied := [Path_of ''/dl/Images'']\<rparr>"

definition others_gap_cfg :: config where
  "others_gap_cfg =
     rules_cfg [(''Others'', \<lparr>folder_path = Some '''', enabled = Some True, extensions = Some []\<rparr>)]"


text \<open>
  A destination folder holding a file whose name has 254 bytes: the first candidate of the
  rename loop has 256.
\<close>

definition long_name :: string where
  "long_name = replicate 250 CHR ''a'' @ ''.jpg''"

definition long_dest :: path where
  "long_dest = Path ''/'' [''dl'', ''Images'', long_name]"

definition long_fs :: fs where
  "long_fs =
     \<lparr>files = [long_dest],
      dirs = [Path ''/'' [''dl''], Path ''/'' [''dl'', ''Images'']],
      denied = [], cwd = []\<rparr>"


text \<open>
  A file size that grows over the first three polls, stays for 2.05 seconds from the moment
  \<open>3/4\<close> on, and changes once more after that.
\<close>

definition bump_late :: "rat \<Rightarrow> nat" where
  "bump_late t = (if t < 1 / 2 then 10 else if t < 3 / 4 then 20
                  else if t \<le> 14 / 5 then 30 else 40)"

section \<open>Duplicate handling: the properties\<close>

lemma exists_error: "exists s p = Inl e \<Longrightarrow> e = NameTooLong"
  by (auto simp: exists_def split: sum.splits if_splits)

lemma stop_counter_exists: "\<exists>k\<ge>c. exists s (candidate d k) \<noteq> Inr True"
proof -
  obtain m where m: "\<forall>k\<in>{k. exists s (candidate d k) = Inr True}. k \<le> m"
    using finite_taken [of s d] by (auto simp: finite_nat_set_iff_bounded_le)
  have "c \<le> max c (Suc m)" by simp
  moreover have "exists s (candidate d (max c (Suc m))) \<noteq> Inr True"
  proof
    assume "exists s (candidate d (max c (Suc m))) = Inr True"
    with m have "max c (Suc m) \<le> m" by blast
    then show False by simp
  qed
  ultimately show ?thesis by blast
qed

lemma first_stop_props:
  "c \<le> first_stop s d c" "exists s (candidate d (first_stop s d c)) \<noteq> Inr True"
  "\<And>j. c \<le> j \<Longrightarrow> j < first_stop s d c \<Longrightarrow> exists s (candidate d j) = Inr True"
proof -
  obtain k where k: "c \<le> k \<and> exists s (candidate d k) \<noteq> Inr True"
    using stop_counter_exists [of c s d] by blast
  from LeastI [of "\<lambda>k. c \<le> k \<and> exists s (candidate d k) \<noteq> Inr True", OF k]
  show "c \<le> first_stop s d c" "exists s (candidate d (first_stop s d c)) \<noteq> Inr True"
    by (simp_all add: first_stop_def)
  fix j assume "c \<le> j" "j < first_stop s d c"
  then show "exists s (candidate d j) = Inr True"
    using not_less_Least [of j "\<lambda>k. c \<le> k \<and> exists s (candidate d k) \<noteq> Inr True"]
    by (auto simp: first_stop_def)
qed

lemma first_stop_here: "exists s (candidate d c) \<noteq> Inr True \<Longrightarrow> first_stop s d c = c"
  unfolding first_stop_def by (rule Least_equality) auto

lemma first_stop_next:
  "exists s (candidate d c) = Inr True \<Longrightarrow> first_stop s d c = first_stop s d (Suc c)"
proof -
  assume e: "exists s (candidate d c) = Inr True"
  have "(\<lambda>k. c \<le> k \<and> exists s (candidate d k) \<noteq> Inr True)
          = (\<lambda>k. Suc c \<le> k \<and> exists s (candidate d k) \<noteq> Inr True)"
  proof (rule ext)
    fix k show "(c \<le> k \<and> exists s (candidate d k) \<noteq> Inr True)
                  = (Suc c \<le> k \<and> exists s (candidate d k) \<noteq> Inr True)"
      using e by (cases "k = c") auto
  qed
  then show ?thesis by (simp add: first_stop_def)
qed

text \<open>What the loop gives when it stops at the path \<open>p\<close>.\<close>

definition stop_at :: "fs \<Rightarrow> path \<Rightarrow> error + path" where
  "stop_at s p = (case exists s p of Inl e \<Rightarrow> Inl e | Inr _ \<Rightarrow> Inr p)"

lemma rename_loop_stop: "exists s p \<noteq> Inr True \<Longrightarrow> rename_loop s d p c = stop_at s p"
  by (subst rename_loop.simps) (simp add: stop_at_def)

lemma rename_loop_taken:
  "exists s p = Inr True
     \<Longrightarrow> rename_loop s d p c = stop_at s (candidate d (first_stop s d c))"
proof (induction s d p c rule: rename_loop.induct)
  case (1 s d p c)
  show ?case
  proof (cases "exists s (candidate d c) = Inr True")
    case True
    with "1.IH" [OF "1.prems"]
    have "rename_loop s d (candidate d c) (c + 1) = stop_at s (candidate d (first_stop s d (c + 1)))"
      by simp
    with "1.prems" True show ?thesis
      by (subst rename_loop.simps) (simp add: first_stop_next)
  next
    case False
    then have "rename_loop s d (candidate d c) (c + 1) = stop_at s (candidate d c)"
      by (rule rename_loop_stop)
    with "1.prems" False show ?thesis
      by (subst rename_loop.simps) (simp add: first_stop_here)
  qed
qed

lemma stop_at_cases:
  assumes "exists s p \<noteq> Inr True"
  shows "(exists s p = Inr False \<and> stop_at s p = Inr p)
         \<or> (exists s p = Inl NameTooLong \<and> stop_at s p = Inl NameTooLong)"
proof (cases "exists s p")
  case (Inl e)
  with exists_error [OF Inl] show ?thesis by (simp add: stop_at_def)
next
  case (Inr b)
  with assms show ?thesis by (simp add: stop_at_def)
qed

lemma rename_policy:
  assumes "handle_duplicates cfg \<noteq> Some ''skip''"
    and "handle_duplicates cfg \<noteq> Some ''overwrite''"
    and "exists s dest_path = Inr True"
  shows "handle_duplicate cfg s src_path dest_path
           = map_sum id Some (stop_at s (candidate dest_path (first_stop s dest_path 1)))"
  using assms
  by (cases "handle_duplicates cfg")
     (auto simp: handle_duplicate_def get_or_def rename_loop_taken split: sum.splits)

lemma photo_taken:
  "exists photo_fs (Path_of ''/dl/Images/photo.jpg'') = Inr True"
  "exists photo_fs (candidate (Path_of ''/dl/Images/photo.jpg'') 1) = Inr True"
  "exists photo_fs (candidate (Path_of ''/dl/Images/photo.jpg'') 2) = Inr False"
  "candidate (Path_of ''/dl/Images/photo.jpg'') 2 = Path_of ''/dl/Images/photo_2.jpg''"
  "exists photo_fs (Path_of ''/dl/Images/other.png'') = Inr False"
  by code_simp+

lemma between_one_two:
  "1 \<le> k \<Longrightarrow> \<not> P k \<Longrightarrow> P 1 \<Longrightarrow> \<not> P 2 \<Longrightarrow> (\<forall>j. 1 \<le> j \<and> j < k \<longrightarrow> P j) \<Longrightarrow> k = (2::nat)"
proof -
  assume a: "1 \<le> k" "\<not> P k" "P 1" "\<not> P 2" "\<forall>j. 1 \<le> j \<and> j < k \<longrightarrow> P j"
  have "k \<noteq> 1" using a by auto
  moreover have "\<not> 2 < k" using a by auto
  ultimately show ?thesis using a(1) by linarith
qed

lemma stopped_result:
  assumes "h = map_sum id Some (stop_at s (candidate d (first_stop s d 1)))"
  shows "\<exists>k\<ge>1. (\<forall>j. 1 \<le> j \<and> j < k \<longrightarrow> exists s (candidate d j) = Inr True)
           \<and> ((exists s (candidate d k) = Inr False \<and> h = Inr (Some (candidate d k)))
               \<or> (exists s (candidate d k) = Inl NameTooLong \<and> h = Inl NameTooLong))"
proof (intro exI conjI allI impI)
  show "1 \<le> first_stop s d 1" by (rule first_stop_props)
  fix j assume "1 \<le> j \<and> j < first_stop s d 1"
  then show "exists s (candidate d j) = Inr True"
    using first_stop_props(3) [of 1 j s d] by simp
next
  from stop_at_cases [OF first_stop_props(2) [of s d 1]] assms
  show "(exists s (candidate d (first_stop s d 1)) = Inr False
           \<and> h = Inr (Some (candidate d (first_stop s d 1))))
        \<or> (exists s (candidate d (first_stop s d 1)) = Inl NameTooLong \<and> h = Inl NameTooLong)"
    by auto
qed

lemma exists_True_parent:
  assumes "exists s d = Inr True" and "parts d \<noteq> []"
  shows "\<exists>c. walk s (start_of s d) (parts (path_parent d)) = Inr c \<and> dir_at s c"
proof -
  from assms(1) obtain r where r: "walk s (start_of s d) (parts d) = Inr r"
    by (auto simp: exists_def locate_def split: sum.splits if_splits)
  from assms(2) have "parts d = parts (path_parent d) @ [last (parts d)]"
    by (simp add: path_parent_def)
  with r have "walk s (start_of s d) (parts (path_parent d) @ [last (parts d)]) = Inr r"
    by simp
  then obtain c where c: "walk s (start_of s d) (parts (path_parent d)) = Inr c"
      "walk s c [last (parts d)] = Inr r"
    by (auto simp: walk_append split: sum.splits)
  from c(2) have "dir_at s c" by (simp split: if_splits)
  with c(1) show ?thesis by blast
qed

lemma candidate_probe:
  assumes "exists s d = Inr True" and "parts d \<noteq> []"
  shows "exists s (candidate d k) = Inl NameTooLong
           \<longleftrightarrow> 255 < length (path_name (candidate d k))
               \<or> 4095 < length (path_str (candidate d k))"
proof -
  let ?n = "new_name (path_stem d) (path_suffix d) k"
  obtain c where c: "walk s (start_of s d) (parts (path_parent d)) = Inr c" "dir_at s c"
    using exists_True_parent [OF assms] by blast
  have st: "start_of s (candidate d k) = start_of s d"
    by (simp add: start_of_def candidate_parts)
  have n: "path_name (candidate d k) = ?n"
    by (simp add: path_name_def candidate_parts)
  have "walk s (start_of s d) (parts (path_parent d) @ [?n])
          = (if 255 < length ?n then Inl NameTooLong
             else Inr (Path (anchor c) (parts c @ [?n])))"
    using c by (simp add: walk_append new_name_not_dotdot)
  then show ?thesis
    by (simp add: exists_def locate_def st n candidate_parts)
qed


text \<open>
  C3 (as amended). Under the rename policy, for a destination that exists, the loop of
  \<^verbatim>\<open>handle_duplicate\<close> ends: it stops at the smallest \<open>k \<ge> 1\<close> whose candidate
  \<^verbatim>\<open>stem_k + suffix\<close> is not found to exist. When the probe of that candidate answers that it
  does not exist, the candidate is returned; when the probe raises, \<^verbatim>\<open>handle_duplicate\<close>
  raises that error. The probe of a candidate raises exactly when the candidate's name has
  more than 255 bytes or its path more than 4095. The loop is total: \<open>rename_loop\<close> is
  defined with its termination proof, for every file system, which holds finitely many
  paths.
\<close>

theorem handle_duplicate_rename:
  assumes "exists s dest_path = Inr True" and "handle_duplicates cfg = Some ''rename''"
  shows "(\<exists>k\<ge>1. (\<forall>j. 1 \<le> j \<and> j < k \<longrightarrow> exists s (candidate dest_path j) = Inr True)
            \<and> ((exists s (candidate dest_path k) = Inr False
                  \<and> handle_duplicate cfg s src_path dest_path = Inr (Some (candidate dest_path k)))
                \<or> (exists s (candidate dest_path k) = Inl NameTooLong
                    \<and> handle_duplicate cfg s src_path dest_path = Inl NameTooLong)))
         \<and> (\<forall>k. parts dest_path \<noteq> [] \<longrightarrow>
               (exists s (candidate dest_path k) = Inl NameTooLong
                  \<longleftrightarrow> 255 < length (path_name (candidate dest_path k))
                      \<or> 4095 < length (path_str (candidate dest_path k))))"
proof (rule conjI)
  have "handle_duplicate cfg s src_path dest_path
          = map_sum id Some (stop_at s (candidate dest_path (first_stop s dest_path 1)))"
    using assms by (intro rename_policy) simp_all
  from stopped_result [OF this]
  show "\<exists>k\<ge>1. (\<forall>j. 1 \<le> j \<and> j < k \<longrightarrow> exists s (candidate dest_path j) = Inr True)
            \<and> ((exists s (candidate dest_path k) = Inr False
                  \<and> handle_duplicate cfg s src_path dest_path = Inr (Some (candidate dest_path k)))
                \<or> (exists s (candidate dest_path k) = Inl NameTooLong
                    \<and> handle_duplicate cfg s src_path dest_path = Inl NameTooLong))"
    .
next
  show "\<forall>k. parts dest_path \<noteq> [] \<longrightarrow>
               (exists s (candidate dest_path k) = Inl NameTooLong
                  \<longleftrightarrow> 255 < length (path_name (candidate dest_path k))
                      \<or> 4095 < length (path_str (candidate dest_path k)))"
    using candidate_probe [OF assms(1)] by blast
qed

text \<open>
  C3 as stated fails: with a destination whose name has 254 bytes taken, the first
  candidate has 256 bytes; no file has that name, and the probe of it raises
  \<^verbatim>\<open>OSError\<close> (file name too long) instead of answering, so no candidate is returned.
\<close>

theorem handle_duplicate_rename_long_name_counterexample:
  "exists long_fs long_dest = Inr True
   \<and> handle_duplicates (policy_cfg (Some ''rename'')) = Some ''rename''
   \<and> length (path_name long_dest) = 254
   \<and> length (path_name (candidate long_dest 1)) = 256
   \<and> candidate long_dest 1 \<notin> set (files long_fs) \<union> set (dirs long_fs)
   \<and> handle_duplicate (policy_cfg (Some ''rename'')) long_fs (Path ''/'' [''dl'', long_name])
        long_dest = Inl NameTooLong"
  by code_simp

text \<open>With \<^verbatim>\<open>photo.jpg\<close> and \<^verbatim>\<open>photo_1.jpg\<close> taken, the result is \<^verbatim>\<open>photo_2.jpg\<close>.\<close>

theorem handle_duplicate_rename_witness:
  "exists photo_fs (Path_of ''/dl/Images/photo.jpg'') = Inr True
   \<and> handle_duplicates (policy_cfg (Some ''rename'')) = Some ''rename''
   \<and> handle_duplicate (policy_cfg (Some ''rename'')) photo_fs (Path_of ''/dl/photo.jpg'')
        (Path_of ''/dl/Images/photo.jpg'') = Inr (Some (Path_of ''/dl/Images/photo_2.jpg''))"
proof -
  let ?d = "Path_of ''/dl/Images/photo.jpg''"
  let ?h = "handle_duplicate (policy_cfg (Some ''rename'')) photo_fs (Path_of ''/dl/photo.jpg'') ?d"
  have h2: "handle_duplicates (policy_cfg (Some ''rename'')) = Some ''rename''"
    by (simp add: policy_cfg_def)
  from handle_duplicate_rename [OF photo_taken(1) h2, of "Path_of ''/dl/photo.jpg''"]
  obtain k where k: "1 \<le> k"
      "\<forall>j. 1 \<le> j \<and> j < k \<longrightarrow> exists photo_fs (candidate ?d j) = Inr True"
      "(exists photo_fs (candidate ?d k) = Inr False \<and> ?h = Inr (Some (candidate ?d k)))
       \<or> (exists photo_fs (candidate ?d k) = Inl NameTooLong \<and> ?h = Inl NameTooLong)"
    by blast
  from k(3) have nk: "\<not> exists photo_fs (candidate ?d k) = Inr True" by auto
  have "k = 2"
    by (rule between_one_two [where P = "\<lambda>j. exists photo_fs (candidate ?d j) = Inr True"])
       (use k nk photo_taken in simp_all)
  with k(3) photo_taken(1,3,4) h2 show ?thesis by simp
qed



text \<open>
  C10 (as amended). Any \<^verbatim>\<open>handle_duplicates\<close> that is neither \<^verbatim>\<open>skip\<close> nor \<^verbatim>\<open>overwrite\<close>, a
  missing key included, behaves on an existing destination as \<^verbatim>\<open>rename\<close> does: the loop stops
  at the smallest \<open>k \<ge> 1\<close> whose counter-suffixed candidate is not found to exist, and that
  candidate is returned, or the error of its probe is raised.
\<close>

theorem handle_duplicate_default_rename:
  assumes "handle_duplicates cfg \<noteq> Some ''skip''"
    and "handle_duplicates cfg \<noteq> Some ''overwrite''"
    and "exists s dest_path = Inr True"
  shows "handle_duplicate cfg s src_path dest_path
           = handle_duplicate (cfg\<lparr>handle_duplicates := Some ''rename''\<rparr>) s src_path dest_path
         \<and> (\<exists>k\<ge>1. (\<forall>j. 1 \<le> j \<and> j < k \<longrightarrow> exists s (candidate dest_path j) = Inr True)
              \<and> ((exists s (candidate dest_path k) = Inr False
                    \<and> handle_duplicate cfg s src_path dest_path
                        = Inr (Some (candidate dest_path k)))
                  \<or> (exists s (candidate dest_path k) = Inl NameTooLong
                      \<and> handle_duplicate cfg s src_path dest_path = Inl NameTooLong)))"
proof (rule conjI)
  have r: "handle_duplicate cfg s src_path dest_path
             = map_sum id Some (stop_at s (candidate dest_path (first_stop s dest_path 1)))"
    using assms by (rule rename_policy)
  have "handle_duplicate (cfg\<lparr>handle_duplicates := Some ''rename''\<rparr>) s src_path dest_path
          = map_sum id Some (stop_at s (candidate dest_path (first_stop s dest_path 1)))"
    using assms(3) by (intro rename_policy) simp_all
  with r show "handle_duplicate cfg s src_path dest_path
           = handle_duplicate (cfg\<lparr>handle_duplicates := Some ''rename''\<rparr>) s src_path dest_path"
    by simp
  from stopped_result [OF r]
  show "\<exists>k\<ge>1. (\<forall>j. 1 \<le> j \<and> j < k \<longrightarrow> exists s (candidate dest_path j) = Inr True)
              \<and> ((exists s (candidate dest_path k) = Inr False
                    \<and> handle_duplicate cfg s src_path dest_path
                        = Inr (Some (candidate dest_path k)))
                  \<or> (exists s (candidate dest_path k) = Inl NameTooLong
                      \<and> handle_duplicate cfg s src_path dest_path = Inl NameTooLong))"
    .
qed

text \<open>
  C10 as stated fails where C3 does: without a configured policy, and with a destination
  whose name has 254 bytes taken, the probe of the first candidate raises and no path is
  produced.
\<close>

theorem handle_duplicate_default_long_name_counterexample:
  "handle_duplicates (policy_cfg None) = None
   \<and> exists long_fs long_dest = Inr True
   \<and> length (path_name (candidate long_dest 1)) = 256
   \<and> candidate long_dest 1 \<notin> set (files long_fs) \<union> set (dirs long_fs)
   \<and> handle_duplicate (policy_cfg None) long_fs (Path ''/'' [''dl'', long_name]) long_dest
       = Inl NameTooLong"
  by code_simp

theorem handle_duplicate_default_rename_witness:
  "handle_duplicates (policy_cfg None) \<noteq> Some ''skip''
   \<and> handle_duplicates (policy_cfg None) \<noteq> Some ''overwrite''
   \<and> handle_duplicates (policy_cfg (Some ''replace'')) \<noteq> Some ''skip''
   \<and> handle_duplicates (policy_cfg (Some ''replace'')) \<noteq> Some ''overwrite''
   \<and> exists photo_fs (Path_of ''/dl/Images/photo.jpg'') = Inr True
   \<and> handle_duplicate (policy_cfg None) photo_fs (Path_of ''/dl/photo.jpg'')
        (Path_of ''/dl/Images/photo.jpg'')
      = handle_duplicate ((policy_cfg None)\<lparr>handle_duplicates := Some ''rename''\<rparr>) photo_fs
          (Path_of ''/dl/photo.jpg'') (Path_of ''/dl/Images/photo.jpg'')
   \<and> handle_duplicate (policy_cfg (Some ''replace'')) photo_fs (Path_of ''/dl/photo.jpg'')
        (Path_of ''/dl/Images/photo.jpg'')
      = handle_duplicate ((policy_cfg (Some ''replace''))\<lparr>handle_duplicates := Some ''rename''\<rparr>)
          photo_fs (Path_of ''/dl/photo.jpg'') (Path_of ''/dl/Images/photo.jpg'')
   \<and> handle_duplicate (policy_cfg None) photo_fs (Path_of ''/dl/photo.jpg'')
        (Path_of ''/dl/Images/photo.jpg'') = Inr (Some (Path_of ''/dl/Images/photo_2.jpg''))"
proof -
  let ?d = "Path_of ''/dl/Images/photo.jpg''"
  let ?h = "handle_duplicate (policy_cfg None) photo_fs (Path_of ''/dl/photo.jpg'') ?d"
  have a: "handle_duplicates (policy_cfg None) \<noteq> Some ''skip''"
    "handle_duplicates (policy_cfg None) \<noteq> Some ''overwrite''"
    "handle_duplicates (policy_cfg (Some ''replace'')) \<noteq> Some ''skip''"
    "handle_duplicates (policy_cfg (Some ''replace'')) \<noteq> Some ''overwrite''"
    by (simp_all add: policy_cfg_def)
  note t1 = handle_duplicate_default_rename [OF a(1) a(2) photo_taken(1), of "Path_of ''/dl/photo.jpg''"]
  note t2 = handle_duplicate_default_rename [OF a(3) a(4) photo_taken(1), of "Path_of ''/dl/photo.jpg''"]
  from t1 obtain k where k: "1 \<le> k"
      "\<forall>j. 1 \<le> j \<and> j < k \<longrightarrow> exists photo_fs (candidate ?d j) = Inr True"
      "(exists photo_fs (candidate ?d k) = Inr False \<and> ?h = Inr (Some (candidate ?d k)))
       \<or> (exists photo_fs (candidate ?d k) = Inl NameTooLong \<and> ?h = Inl NameTooLong)"
    by blast
  from k(3) have nk: "\<not> exists photo_fs (candidate ?d k) = Inr True" by auto
  have "k = 2"
    by (rule between_one_two [where P = "\<lambda>j. exists photo_fs (candidate ?d j) = Inr True"])
       (use k nk photo_taken in simp_all)
  with k(3) photo_taken(3,4) have "?h = Inr (Some (Path_of ''/dl/Images/photo_2.jpg''))"
    by simp
  with t1 t2 a photo_taken(1) show ?thesis by blast
qed

section \<open>The categorizer: the properties\<close>

lemma rfind_Some: "rfind c s = Some i \<Longrightarrow> i < length s \<and> s ! i = c \<and> c \<notin> set (drop (Suc i) s)"
proof (induction s arbitrary: i)
  case Nil
  then show ?case by simp
next
  case (Cons x xs)
  show ?case
  proof (cases "rfind c xs")
    case None
    with Cons.prems have i: "i = 0" "x = c" by (auto split: if_splits)
    have "c \<notin> set xs" using None
    proof (induction xs)
      case Nil then show ?case by simp
    next
      case (Cons y ys) then show ?case by (auto split: option.splits if_splits)
    qed
    with i show ?thesis by simp
  next
    case (Some j)
    with Cons.prems have "i = Suc j" by simp
    with Cons.IH [OF Some] show ?thesis by simp
  qed
qed

lemma name_suffix_shape:
  "name_suffix n = [] \<or> (\<exists>t. name_suffix n = CHR ''.'' # t \<and> CHR ''.'' \<notin> set t)"
proof (cases "rfind CHR ''.'' n")
  case None
  then show ?thesis by (simp add: name_suffix_def)
next
  case (Some i)
  from rfind_Some [OF Some] have i: "i < length n" "n ! i = CHR ''.''" "CHR ''.'' \<notin> set (drop (Suc i) n)"
    by simp_all
  then have "drop i n = CHR ''.'' # drop (Suc i) n"
    by (metis Cons_nth_drop_Suc)
  with i Some show ?thesis by (simp add: name_suffix_def)
qed

lemma lower_char_dot: "lower_char c = CHR ''.'' \<longleftrightarrow> c = CHR ''.''"
proof (cases "65 \<le> (of_char c :: nat) \<and> (of_char c :: nat) \<le> 90")
  case True
  then have "(of_char (lower_char c) :: nat) = of_char c + 32"
    by (simp add: lower_char_def)
  with True have "(of_char (lower_char c) :: nat) \<noteq> of_char CHR ''.''" by simp
  then have "lower_char c \<noteq> CHR ''.''" by metis
  moreover from True have "c \<noteq> CHR ''.''" by auto
  ultimately show ?thesis by simp
next
  case False
  then have "lower_char c = c" by (auto simp: lower_char_def)
  then show ?thesis by simp
qed

lemma extension_agrees:
  "lstrip CHR ''.'' (lower (path_suffix (Path_of file_path))) = spec_extension file_path"
proof -
  let ?sfx = "path_suffix (Path_of file_path)"
  from name_suffix_shape [of "path_name (Path_of file_path)"]
  consider "?sfx = []" | t where "?sfx = CHR ''.'' # t" "CHR ''.'' \<notin> set t"
    by (auto simp: path_suffix_def)
  then show ?thesis
  proof cases
    case 1
    then show ?thesis by (simp add: spec_extension_def lstrip_def lower_def)
  next
    case 2
    have "dropWhile (\<lambda>x. x = CHR ''.'') (map lower_char t) = map lower_char t"
      using 2(2) by (cases t) (auto simp: lower_char_dot)
    with 2 show ?thesis
      by (simp add: spec_extension_def lstrip_def lower_def lower_char_dot)
  qed
qed

lemma category_loop_find:
  "category_loop ext rules =
     (case List.find (\<lambda>(name, info). rule_enabled info \<and> ext \<in> rule_extensions info) rules of
        None \<Rightarrow> ''Others''
      | Some (name, info) \<Rightarrow> name)"
proof (induction rules)
  case Nil
  then show ?case by simp
next
  case (Cons r rules)
  obtain name info where r: "r = (name, info)" by (cases r)
  have "get_or (enabled info) True = rule_enabled info"
    by (cases "enabled info") (auto simp: get_or_def rule_enabled_def)
  moreover have "set (get_or (extensions info) []) = rule_extensions info"
    by (cases "extensions info") (auto simp: get_or_def rule_extensions_def)
  ultimately show ?case using Cons.IH r by simp
qed

lemma category_loop_no_match:
  "(\<forall>(name, info) \<in> set rules. \<not> (rule_enabled info \<and> ext \<in> rule_extensions info))
   \<Longrightarrow> category_loop ext rules = ''Others''"
proof (induction rules)
  case Nil
  then show ?case by simp
next
  case (Cons r rules)
  obtain name info where r: "r = (name, info)" by (cases r)
  have "get_or (enabled info) True = rule_enabled info"
    by (cases "enabled info") (auto simp: get_or_def rule_enabled_def)
  moreover have "set (get_or (extensions info) []) = rule_extensions info"
    by (cases "extensions info") (auto simp: get_or_def rule_extensions_def)
  ultimately show ?case using Cons r by auto
qed

text \<open>
  C2 (as amended). \<^verbatim>\<open>get_file_category\<close> is the specification's \<open>classify\<close> on every path and
  configuration; it answers \<^verbatim>\<open>"Others"\<close> when no enabled rule holds the extension, and so
  for a file without extension unless an enabled rule lists the empty extension. It is a
  total function of the configuration and the path alone: the file system is no argument.
\<close>

theorem get_file_category_classify:
  "get_file_category cfg file_path = classify (get_or (categories cfg) []) file_path
   \<and> ((\<forall>(name, info) \<in> set (get_or (categories cfg) []).
          \<not> (rule_enabled info \<and> spec_extension file_path \<in> rule_extensions info))
        \<longrightarrow> get_file_category cfg file_path = ''Others'')
   \<and> (path_suffix (Path_of file_path) = ''''
        \<and> (\<forall>(name, info) \<in> set (get_or (categories cfg) []).
              \<not> (rule_enabled info \<and> '''' \<in> rule_extensions info))
        \<longrightarrow> get_file_category cfg file_path = ''Others'')"
proof (intro conjI impI)
  show "get_file_category cfg file_path = classify (get_or (categories cfg) []) file_path"
    by (simp add: get_file_category_def classify_def extension_agrees category_loop_find)
next
  assume "\<forall>(name, info) \<in> set (get_or (categories cfg) []).
            \<not> (rule_enabled info \<and> spec_extension file_path \<in> rule_extensions info)"
  then show "get_file_category cfg file_path = ''Others''"
    by (simp add: get_file_category_def extension_agrees category_loop_no_match)
next
  assume a: "path_suffix (Path_of file_path) = ''''
        \<and> (\<forall>(name, info) \<in> set (get_or (categories cfg) []).
              \<not> (rule_enabled info \<and> '''' \<in> rule_extensions info))"
  then have "spec_extension file_path = ''''" by (simp add: spec_extension_def lower_def)
  with a have "category_loop (spec_extension file_path) (get_or (categories cfg) []) = ''Others''"
    by (intro category_loop_no_match) simp
  then show "get_file_category cfg file_path = ''Others''"
    unfolding get_file_category_def extension_agrees .
qed

text \<open>
  C2 as stated fails: a file without extension is not always \<^verbatim>\<open>"Others"\<close>. The empty
  extension is looked up like any other, and an enabled rule may list it.
\<close>

theorem get_file_category_no_extension_counterexample:
  "path_suffix (Path_of ''/dl/README'') = ''''
   \<and> get_file_category (rules_cfg [(''Misc'', rule ''/dl/Misc'' True [''''])]) ''/dl/README'' = ''Misc''"
  by code_simp

lemma overlap_examples:
  "get_file_category (rules_cfg overlap_rules) ''/dl/Photo.JPG'' = ''Images''"
  "get_file_category (rules_cfg overlap_rules) ''/dl/unknown.xyz'' = ''Others''"
  "get_file_category (rules_cfg overlap_rules) ''/dl/README'' = ''Others''"
  "path_suffix (Path_of ''/dl/README'') = ''''"
  "spec_extension ''/dl/unknown.xyz'' = ''xyz''"
  by code_simp+

theorem get_file_category_classify_witness:
  "get_file_category (rules_cfg overlap_rules) ''/dl/unknown.xyz'' = ''Others''
   \<and> path_suffix (Path_of ''/dl/README'') = []
   \<and> get_file_category (rules_cfg overlap_rules) ''/dl/README'' = ''Others''
   \<and> get_file_category (rules_cfg overlap_rules) ''/dl/Photo.JPG''
       = classify (get_or (categories (rules_cfg overlap_rules)) []) ''/dl/Photo.JPG''
   \<and> classify (get_or (categories (rules_cfg overlap_rules)) []) ''/dl/Photo.JPG'' = ''Images''"
proof -
  have h1: "\<forall>(name, info) \<in> set (get_or (categories (rules_cfg overlap_rules)) []).
              \<not> (rule_enabled info \<and> spec_extension ''/dl/unknown.xyz'' \<in> rule_extensions info)"
    by code_simp
  have h2: "\<forall>(name, info) \<in> set (get_or (categories (rules_cfg overlap_rules)) []).
              \<not> (rule_enabled info \<and> [] \<in> rule_extensions info)"
    by code_simp
  have h3: "path_suffix (Path_of ''/dl/README'') = []"
    by code_simp
  from get_file_category_classify [of "rules_cfg overlap_rules" "''/dl/unknown.xyz''"] h1
  have r1: "get_file_category (rules_cfg overlap_rules) ''/dl/unknown.xyz'' = ''Others''"
    by blast
  from get_file_category_classify [of "rules_cfg overlap_rules" "''/dl/README''"] h2 h3
  have r2: "get_file_category (rules_cfg overlap_rules) ''/dl/README'' = ''Others''"
    by blast
  from get_file_category_classify [of "rules_cfg overlap_rules" "''/dl/Photo.JPG''"]
  have r3: "get_file_category (rules_cfg overlap_rules) ''/dl/Photo.JPG''
       = classify (get_or (categories (rules_cfg overlap_rules)) []) ''/dl/Photo.JPG''"
    by blast
  have r4: "classify (get_or (categories (rules_cfg overlap_rules)) []) ''/dl/Photo.JPG'' = ''Images''"
    by code_simp
  from r1 r2 r3 r4 h3 show ?thesis by blast
qed

section \<open>The readiness detector: the loop\<close>

lemma ready_loop_step:
  assumes "(\<exists>n. polls K = Size n)" "stable_elapsed polls ci K < sp" "of_nat K * ci < mw"
    and "K = 0 \<or> (\<exists>n. polls (K - 1) = Size n)"
  shows "ready_loop polls sp ci mw K (last_size_at polls K) (stable_time_at polls ci K) (of_nat K * ci)
       = ready_loop polls sp ci mw (Suc K) (last_size_at polls (Suc K))
           (stable_time_at polls ci (Suc K)) (of_nat (Suc K) * ci)"
proof -
  obtain n where n: "polls K = Size n" using assms(1) by blast
  have t: "of_nat K * ci + ci = of_nat (Suc K) * ci" by (simp add: algebra_simps)
  show ?thesis
  proof (cases K)
    case 0
    with n assms(3) show ?thesis
      by (subst ready_loop.simps) simp
  next
    case (Suc K')
    with assms(4) obtain m where m: "polls K' = Size m" by auto
    show ?thesis
    proof (cases "n = m")
      case True
      with n m Suc have "stable_elapsed polls ci K = stable_elapsed polls ci K' + ci" by simp
      with assms(2) have "\<not> sp \<le> stable_elapsed polls ci K' + ci" by simp
      with n m Suc True assms(3) t show ?thesis
        by (subst ready_loop.simps) simp
    next
      case False
      with n m Suc assms(3) t show ?thesis
        by (subst ready_loop.simps) simp
    qed
  qed
qed

lemma ready_loop_prefix:
  "quiet_before polls sp ci mw K \<Longrightarrow>
   ready_loop polls sp ci mw 0 (- 1) 0 0
     = ready_loop polls sp ci mw K (last_size_at polls K) (stable_time_at polls ci K) (of_nat K * ci)"
proof (induction K)
  case 0
  then show ?case by simp
next
  case (Suc K)
  then have q: "quiet_before polls sp ci mw K" by (simp add: quiet_before_def)
  from Suc.prems have h: "(\<exists>n. polls K = Size n)" "stable_elapsed polls ci K < sp" "of_nat K * ci < mw"
    by (simp_all add: quiet_before_def)
  from Suc.prems have p: "K = 0 \<or> (\<exists>n. polls (K - 1) = Size n)"
    by (cases K) (simp_all add: quiet_before_def)
  from Suc.IH [OF q] ready_loop_step [OF h p] show ?case by simp
qed

lemma ready_loop_timeout:
  assumes "quiet_before polls sp ci mw K" and "mw \<le> of_nat K * ci"
  shows "ready_loop polls sp ci mw 0 (- 1) 0 0 = Some (False, of_nat K * ci)"
  using assms(2) by (subst ready_loop_prefix [OF assms(1)], subst ready_loop.simps) simp

lemma ready_loop_gone:
  assumes "quiet_before polls sp ci mw K" and "of_nat K * ci < mw"
    and "polls K = Gone \<or> polls K = StatFailed"
  shows "ready_loop polls sp ci mw 0 (- 1) 0 0 = Some (False, of_nat K * ci)"
  using assms(2,3) by (subst ready_loop_prefix [OF assms(1)], subst ready_loop.simps) auto

lemma ready_loop_ready:
  assumes "quiet_before polls sp ci mw K" and "of_nat K * ci < mw"
    and "polls K = Size n" and "0 < sp" and "sp \<le> stable_elapsed polls ci K"
  shows "ready_loop polls sp ci mw 0 (- 1) 0 0 = Some (True, of_nat K * ci)"
proof -
  from assms(4,5) obtain K' where K: "K = Suc K'" by (cases K) auto
  with assms(4,5) have e: "polls (Suc K') = polls K'" "sp \<le> stable_elapsed polls ci K' + ci"
    by (auto split: if_splits)
  with assms(3) K have "polls K' = Size n" by simp
  with assms(2,3) e K show ?thesis
    by (subst ready_loop_prefix [OF assms(1)], subst ready_loop.simps) simp
qed

lemma timeout_index:
  assumes "0 < (ci::rat)"
  shows "\<exists>K. mw \<le> of_nat K * ci \<and> (\<forall>k<K. of_nat k * ci < mw)"
proof -
  obtain n :: nat where "mw / ci \<le> of_nat n" using real_arch_simple by blast
  with assms have n: "mw \<le> of_nat n * ci" by (simp add: pos_divide_le_eq)
  define K where "K = (LEAST K. mw \<le> of_nat K * ci)"
  from n have "mw \<le> of_nat K * ci" unfolding K_def by (rule LeastI)
  moreover have "\<forall>k<K. of_nat k * ci < mw"
  proof (intro allI impI)
    fix k assume "k < K"
    then have "\<not> mw \<le> of_nat k * ci" unfolding K_def by (rule not_less_Least)
    then show "of_nat k * ci < mw" by simp
  qed
  ultimately show ?thesis by blast
qed

lemma ready_loop_total_aux:
  "0 < ci \<Longrightarrow> mw - tw \<le> of_nat n * ci \<Longrightarrow>
   \<exists>r. ready_loop polls sp ci mw k ls st tw = Some r"
proof (induction n arbitrary: k ls st tw)
  case 0
  then have "\<not> tw < mw" by simp
  then show ?case by (subst ready_loop.simps) auto
next
  case (Suc n)
  have "mw - (tw + ci) \<le> of_nat n * ci"
    using Suc.prems(2) by (simp add: algebra_simps)
  from Suc.IH [OF Suc.prems(1) this]
  have ih: "\<And>k ls st. \<exists>r. ready_loop polls sp ci mw k ls st (tw + ci) = Some r" .
  show ?case
  proof (cases "tw < mw")
    case False
    then show ?thesis by (subst ready_loop.simps) auto
  next
    case True
    show ?thesis
    proof (cases "polls k")
      case (Size n)
      with True ih show ?thesis by (subst ready_loop.simps) auto
    next
      case Gone
      with True show ?thesis by (subst ready_loop.simps) auto
    next
      case StatFailed
      with True show ?thesis by (subst ready_loop.simps) auto
    qed
  qed
qed

lemma ready_loop_total:
  assumes "0 < ci"
  shows "\<exists>r. ready_loop polls sp ci mw k ls st tw = Some r"
proof -
  obtain n :: nat where "(mw - tw) / ci \<le> of_nat n" using real_arch_simple by blast
  with assms have "mw - tw \<le> of_nat n * ci" by (simp add: pos_divide_le_eq)
  with assms show ?thesis by (rule ready_loop_total_aux)
qed

lemma is_file_ready_total:
  "0 < ci \<Longrightarrow> \<exists>b. is_file_ready s polls p sp ci mw = Some b"
  using ready_loop_total [of ci polls sp mw 0 "- 1" 0 0]
  by (auto simp: is_file_ready_def is_file_ready_at_def split: sum.splits)

lemma is_file_ready_default: "\<exists>b. is_file_ready s polls p 2 (1 / 2) 30 = Some b"
  by (rule is_file_ready_total) simp

lemma stable_elapsed_bounds:
  "0 \<le> ci \<Longrightarrow> 0 \<le> stable_elapsed polls ci k \<and> stable_elapsed polls ci k \<le> of_nat k * ci"
  by (induction k) (auto simp: algebra_simps)

lemma stable_run:
  "stable_elapsed polls ci j = 0 \<Longrightarrow> (\<forall>i<n. polls (j + Suc i) = polls (j + i)) \<Longrightarrow>
   stable_elapsed polls ci (j + n) = of_nat n * ci"
  by (induction n) (auto simp: algebra_simps)

lemma growth_then_stable:
  fixes sz :: "rat \<Rightarrow> nat" and g :: rat
  assumes g: "0 \<le> g" "g \<le> 1"
    and grow: "\<forall>t. 0 \<le> t \<and> t < g \<longrightarrow> sz t \<noteq> sz g"
    and stable: "\<forall>t. g \<le> t \<and> t < g + 2 + 1 / 2 \<longrightarrow> sz t = sz g"
  defines "polls \<equiv> \<lambda>k. Size (sz (of_nat k / 2))"
  shows "\<exists>K. ready_loop polls 2 (1 / 2) 30 0 (- 1) 0 0 = Some (True, of_nat K / 2)
           \<and> g + 2 \<le> of_nat K / 2 \<and> of_nat K / 2 \<le> g + 2 + 1 / 2
           \<and> 2 \<le> stable_elapsed polls (1 / 2) K
           \<and> (\<forall>k<K. stable_elapsed polls (1 / 2) k < 2)"
proof -
  define j :: nat where "j = (if g = 0 then 0 else if g \<le> 1 / 2 then 1 else 2)"
  have j2: "j \<le> 2" by (simp add: j_def)
  have jg: "g \<le> of_nat j / 2" using g by (auto simp: j_def)
  have jl: "of_nat j / 2 < g + 1 / 2" using g by (auto simp: j_def)
  have before: "of_nat k / 2 < g" if "k < j" for k
  proof -
    from that j2 have "k = 0 \<or> k = 1" by auto
    with that g show ?thesis by (auto simp: j_def split: if_splits)
  qed
  have late: "polls k = Size (sz g)" if "j \<le> k" "k \<le> j + 4" for k
  proof -
    from that have "(of_nat j :: rat) \<le> of_nat k" by simp
    with jg have "g \<le> of_nat k / 2" by simp
    moreover from that have "(of_nat k :: rat) \<le> of_nat j + 4"
      by (metis of_nat_le_iff of_nat_add of_nat_numeral)
    with jl have "of_nat k / 2 < g + 2 + 1 / 2" by simp
    ultimately have "sz (of_nat k / 2) = sz g" using stable by blast
    then show ?thesis by (simp add: polls_def)
  qed
  have early: "polls k \<noteq> Size (sz g)" if "k < j" for k
  proof -
    have "0 \<le> (of_nat k :: rat) / 2" by simp
    with before [OF that] grow have "sz (of_nat k / 2) \<noteq> sz g" by blast
    then show ?thesis by (simp add: polls_def)
  qed
  have zero: "stable_elapsed polls (1 / 2) j = 0"
  proof (cases j)
    case 0
    then show ?thesis by simp
  next
    case (Suc j')
    then have "polls (Suc j') \<noteq> polls j'" using late [of j] early [of j'] by simp
    with Suc show ?thesis by simp
  qed
  have run: "stable_elapsed polls (1 / 2) (j + n) = of_nat n * (1 / 2)" if "n \<le> 4" for n
    by (rule stable_run [OF zero]) (use that in \<open>simp add: late\<close>)
  have low: "stable_elapsed polls (1 / 2) k < 2" if "k < j + 4" for k
  proof (cases "k < j")
    case True
    with j2 have "(of_nat k :: rat) \<le> 1" by simp
    moreover have "stable_elapsed polls (1 / 2) k \<le> of_nat k * (1 / 2)"
      using stable_elapsed_bounds [of "1 / 2" polls k] by simp
    ultimately show ?thesis by simp
  next
    case False
    then obtain n where n: "k = j + n" using le_Suc_ex [of j k] by auto
    with that have "n < 4" by simp
    then have "(of_nat n :: rat) < 4" by simp
    with run [of n] n \<open>n < 4\<close> show ?thesis by simp
  qed
  have quiet: "quiet_before polls 2 (1 / 2) 30 (j + 4)"
    unfolding quiet_before_def
  proof (intro allI impI conjI)
    fix k assume k: "k < j + 4"
    show "\<exists>n. polls k = Size n" by (simp add: polls_def)
    show "stable_elapsed polls (1 / 2) k < 2" using k by (rule low)
    from k j2 have "(of_nat k :: rat) < 6" by simp
    then show "of_nat k * (1 / 2 :: rat) < 30" by simp
  qed
  have jr: "(of_nat j :: rat) \<le> 2" using j2 by simp
  then have t: "of_nat (j + 4) * (1 / 2 :: rat) < 30" by simp
  have top: "2 \<le> stable_elapsed polls (1 / 2) (j + 4)" using run [of 4] by simp
  from ready_loop_ready [OF quiet t late [of "j + 4"] _ top]
  have "ready_loop polls 2 (1 / 2) 30 0 (- 1) 0 0 = Some (True, of_nat (j + 4) / 2)"
    by simp
  moreover have "g + 2 \<le> of_nat (j + 4) / 2" using jg by simp
  moreover have "of_nat (j + 4) / 2 \<le> g + 2 + 1 / 2" using jl by simp
  ultimately show ?thesis using top low by blast
qed

lemma stable_elapsed_growing: "stable_elapsed growing ci k = 0"
  by (cases k) (simp_all add: growing_def)

section \<open>The file system: what a lookup depends on\<close>

lemma walk_mono:
  "walk s cur ws = Inr r \<Longrightarrow> set (dirs s) \<subseteq> set (dirs s') \<Longrightarrow> walk s' cur ws = Inr r"
proof (induction ws arbitrary: cur)
  case Nil
  then show ?case by simp
next
  case (Cons w ws)
  from Cons.prems have d: "dir_at s cur" "\<not> 255 < length w"
    by (auto split: if_splits)
  with Cons.prems(2) have d': "dir_at s' cur" by (auto simp: dir_at_def)
  from Cons.prems(1) d
  have "walk s (if w = ''..'' then path_parent cur else Path (anchor cur) (parts cur @ [w])) ws
          = Inr r"
    by simp
  from Cons.IH [OF this Cons.prems(2)] d d' show ?case by simp
qed


lemma locate_mono:
  assumes "locate s p = Inr r" and "set (dirs s) \<subseteq> set (dirs s')" and "cwd s' = cwd s"
  shows "locate s' p = Inr r"
proof -
  from assms(1) have "\<not> 4095 < length (path_str p)" "walk s (start_of s p) (parts p) = Inr r"
    by (auto simp: locate_def split: if_splits)
  moreover from assms(3) have "start_of s' p = start_of s p" by (simp add: start_of_def)
  ultimately show ?thesis using walk_mono [OF _ assms(2)] by (simp add: locate_def)
qed


lemma is_dir_error: "is_dir s p = Inl e \<longleftrightarrow> exists s p = Inl e"
  by (auto simp: is_dir_def exists_def split: sum.splits if_splits)


section \<open>Making directories\<close>


lemma os_mkdir_made:
  assumes "os_mkdir s d = Inr s'"
  shows "is_dir s' d = Inr True"
proof -
  from assms obtain r where r: "locate s d = Inr r" "s' = s\<lparr>dirs := r # dirs s\<rparr>"
    by (auto simp: os_mkdir_def split: sum.splits if_splits)
  from r(2) have "set (dirs s) \<subseteq> set (dirs s')" "cwd s' = cwd s" by auto
  from locate_mono [OF r(1) this] r(2) show ?thesis
    by (simp add: is_dir_def dir_at_def)
qed


lemma after_oserror_made: "after_oserror s d e = (None, s') \<Longrightarrow> is_dir s' d = Inr True"
  by (auto simp: after_oserror_def split: sum.splits if_splits)


lemma mkdir_once_made:
  assumes "mkdir_once s d = (None, s')"
  shows "is_dir s' d = Inr True"
proof (cases "os_mkdir s d")
  case (Inr s1)
  with assms os_mkdir_made [OF Inr] show ?thesis by (simp add: mkdir_once_def)
next
  case (Inl e)
  with assms show ?thesis
    by (auto simp: mkdir_once_def split: if_splits dest: after_oserror_made)
qed


lemma mkdir_rev_made:
  assumes "mkdir_rev s a rs = (None, s')"
  shows "is_dir s' (Path a (rev rs)) = Inr True"
proof (cases rs)
  case Nil
  with assms show ?thesis using mkdir_once_made [of s "Path a []" s'] by simp
next
  case (Cons n rs')
  show ?thesis
  proof (cases "os_mkdir s (Path a (rev (n # rs')))")
    case (Inr s1)
    with assms Cons os_mkdir_made [OF Inr] show ?thesis by simp
  next
    case (Inl e)
    show ?thesis
    proof (cases "e = FileNotFoundError")
      case False
      with Inl assms Cons show ?thesis by (auto dest: after_oserror_made)
    next
      case True
      obtain e1 s1 where p: "mkdir_rev s a rs' = (e1, s1)" by (cases "mkdir_rev s a rs'")
      with Inl True assms Cons
      have "e1 = None" "mkdir_once s1 (Path a (rev (n # rs'))) = (None, s')"
        by (auto split: option.splits)
      with Cons show ?thesis by (simp add: mkdir_once_made)
    qed
  qed
qed

lemma mkdir_rev_again:
  assumes "is_dir s (Path a (rev rs)) = Inr True"
  shows "mkdir_rev s a rs = (None, s)"
proof -
  from assms have "os_mkdir s (Path a (rev rs)) = Inl FileExistsError"
    by (auto simp: is_dir_def os_mkdir_def entry_at_def split: sum.splits if_splits)
  with assms show ?thesis
    by (cases rs) (simp_all add: mkdir_once_def after_oserror_def)
qed


lemma mkdir_parents_made: "mkdir_parents s d = (None, s') \<Longrightarrow> is_dir s' d = Inr True"
  unfolding mkdir_parents_def using mkdir_rev_made [of s "anchor d" "rev (parts d)" s']
  by simp

lemma mkdir_parents_again: "mkdir_parents s d = (None, s') \<Longrightarrow> mkdir_parents s' d = (None, s')"
  unfolding mkdir_parents_def
  using mkdir_rev_made [of s "anchor d" "rev (parts d)" s']
    mkdir_rev_again [of s' "anchor d" "rev (parts d)"]
  by simp


section \<open>Moving a file\<close>



section \<open>The orchestrator: what a run does to the file system\<close>

lemma organize_try_total: "\<exists>r. organize_try cfg home polls s a = Some r"
proof -
  obtain b where "is_file_ready s polls (Path_of a) 2 (1 / 2) 30 = Some b"
    using is_file_ready_default by blast
  then show ?thesis
    by (auto simp: organize_try_def Let_def split: sum.splits option.splits prod.splits)
qed

lemma is_file_ready_probe:
  assumes "is_file_ready s polls p sp ci mw = Some (Inr b)"
  shows "\<exists>found. exists s p = Inr found"
  using assms
  by (cases "exists s p") (auto simp: is_file_ready_def is_file_ready_at_def)

lemma organize_file_not_ready:
  assumes "is_file_ready s polls (Path_of a) 2 (1 / 2) 30 = Some (Inr False)"
  shows "\<exists>r. organize_file cfg home polls s a = Some (Skipped r, s)"
proof -
  obtain found where f: "exists s (Path_of a) = Inr found"
    using is_file_ready_probe [OF assms] by blast
  then obtain d where d: "is_dir s (Path_of a) = Inr d"
    using is_dir_error [of s "Path_of a"] by (cases "is_dir s (Path_of a)") auto
  from assms f d show ?thesis
    by (simp add: organize_file_def organize_try_def Let_def)
qed

lemma organize_file_out_of_scope:
  assumes "path_parent (Path_of a) \<noteq> configured_downloads cfg home"
  shows "case exists s (Path_of a) of
           Inl e \<Rightarrow> organize_file cfg home polls s a = Some (Failed e, s)
         | Inr found \<Rightarrow>
             organize_file cfg home polls s a = Some (Skipped NotFound, s)
             \<or> organize_file cfg home polls s a = Some (Skipped HiddenOrTemporary, s)
             \<or> organize_file cfg home polls s a = Some (Skipped NotInDownloads, s)"
proof (cases "exists s (Path_of a)")
  case (Inl e)
  then show ?thesis by (simp add: organize_file_def organize_try_def Let_def)
next
  case (Inr found)
  then obtain d where d: "is_dir s (Path_of a) = Inr d"
    using is_dir_error [of s "Path_of a"] by (cases "is_dir s (Path_of a)") auto
  from assms Inr d show ?thesis
    by (simp add: organize_file_def organize_try_def Let_def)
qed



section \<open>The examples, evaluated\<close>

lemma failed_run: "organize_try example_cfg home_dir steady locked_fs ''/dl/photo.jpg''
              = Some (Inl (PermissionError, locked_fs))"
    by code_simp

lemma others_run: "organize_try example_cfg home_dir steady example_fs ''/dl/unknown.xyz''
     = Some (Inr (Moved (Path_of ''/dl/unknown.xyz'') (Path_of ''/dl/Others/unknown.xyz'') ''Others'',
             others_fs\<lparr>files := [Path_of ''/dl/Others/unknown.xyz'', Path_of ''/dl/photo.jpg'',
                                   Path_of ''/dl/Images/photo.jpg'', Path_of ''/dl/report.pdf'']\<rparr>))"
    by code_simp

lemma three_polls_run:
  "is_file_ready_at example_fs (\<lambda>k. Size (three_polls (of_nat k / 2)))
        (Path_of ''/dl/photo.jpg'') 2 (1 / 2) 30 = Some (Inr (True, 3))"
  by code_simp

lemma stable_elapsed_steady: "stable_elapsed steady (1 / 2) k = of_nat k * (1 / 2)"
  by (induction k) (simp_all add: steady_def algebra_simps)

lemma resolver_examples:
  "map_of (get_or (categories example_cfg) []) ''Documents'' = Some gap_rule"
  "folder_path gap_rule = Some ''''"
  "map_of (get_or (categories example_cfg) []) ''Others'' = None"
  "mkdir_parents example_fs (Path_of ''/dl/Others'') = (None, others_fs)"
  "joinpath (Path_of ''/dl/Others'') (path_name (Path_of ''/dl/unknown.xyz''))
     = Path_of ''/dl/Others/unknown.xyz''"
  "joinpath (configured_downloads example_cfg home_dir) ''Others'' = Path_of ''/dl/Others''"
  "path_str (Path_of ''/dl/report.pdf'') = ''/dl/report.pdf''"
  "get_file_category example_cfg ''/dl/report.pdf'' = ''Documents''"
  "exists example_fs (Path_of ''/dl/report.pdf'') = Inr True"
  by code_simp+

lemma scope_examples:
  "path_parent (Path_of ''/dl/Images/photo.jpg'')
     = Path (anchor (configured_downloads example_cfg home_dir))
            (parts (configured_downloads example_cfg home_dir) @ [''Images''])"
  "path_parent (Path_of ''/tmp/photo.jpg'') \<noteq> configured_downloads example_cfg home_dir"
  "exists example_fs (Path_of ''/dl/Images/photo.jpg'') = Inr True"
  "get_file_category example_cfg ''/dl/Images/photo.jpg'' = ''Images''"
  "exists example_fs (Path_of ''/tmp/photo.jpg'') = Inr False"
  by code_simp+



lemma bump_late_run:
  "is_file_ready_at example_fs (\<lambda>k. Size (bump_late (of_nat k / 2)))
        (Path_of ''/dl/photo.jpg'') 2 (1 / 2) 30 = Some (Inr (True, 5))"
  by code_simp

section \<open>The readiness detector: the properties\<close>

text \<open>
  C4. The detector returns \<open>False\<close> at once when the file is found not to exist at the
  start; it returns \<open>False\<close>, with at least \<^verbatim>\<open>max_wait_time\<close> elapsed, when every poll in time
  sees a size and the stable-elapsed counter stays below the threshold; it returns \<open>False\<close>
  at the poll that finds the file gone, without further waiting. After a \<open>False\<close> the
  orchestrator skips: no move, the file system as it was. The orchestrator calls the
  detector with its default arguments only, at which the loop's float arithmetic is exact.
\<close>

theorem is_file_ready_false:
  "(exists s p = Inr False \<longrightarrow> is_file_ready_at s polls p sp ci mw = Some (Inr (False, 0)))
   \<and> (exists s p = Inr True \<and> 0 < ci
        \<and> (\<forall>k. of_nat k * ci < mw \<longrightarrow> (\<exists>n. polls k = Size n) \<and> stable_elapsed polls ci k < sp)
      \<longrightarrow> (\<exists>T\<ge>mw. is_file_ready_at s polls p sp ci mw = Some (Inr (False, T))))
   \<and> (exists s p = Inr True \<and> 0 \<le> ci \<and> polls d = Gone \<and> of_nat d * ci < mw
        \<and> (\<forall>k<d. (\<exists>n. polls k = Size n) \<and> stable_elapsed polls ci k < sp)
      \<longrightarrow> is_file_ready_at s polls p sp ci mw = Some (Inr (False, of_nat d * ci)))
   \<and> (is_file_ready s polls (Path_of file_path_arg) 2 (1 / 2) 30 = Some (Inr False)
      \<longrightarrow> (\<exists>r. organize_file cfg home polls s file_path_arg = Some (Skipped r, s)))"
proof (intro conjI impI)
  assume "exists s p = Inr False"
  then show "is_file_ready_at s polls p sp ci mw = Some (Inr (False, 0))"
    by (simp add: is_file_ready_at_def)
next
  assume a: "exists s p = Inr True \<and> 0 < ci
        \<and> (\<forall>k. of_nat k * ci < mw \<longrightarrow> (\<exists>n. polls k = Size n) \<and> stable_elapsed polls ci k < sp)"
  then obtain K where K: "mw \<le> of_nat K * ci" "\<forall>k<K. of_nat k * ci < mw"
    using timeout_index [of ci mw] by blast
  with a have "quiet_before polls sp ci mw K" by (simp add: quiet_before_def)
  from ready_loop_timeout [OF this K(1)] a K(1)
  show "\<exists>T\<ge>mw. is_file_ready_at s polls p sp ci mw = Some (Inr (False, T))"
    by (auto simp: is_file_ready_at_def)
next
  assume a: "exists s p = Inr True \<and> 0 \<le> ci \<and> polls d = Gone \<and> of_nat d * ci < mw
        \<and> (\<forall>k<d. (\<exists>n. polls k = Size n) \<and> stable_elapsed polls ci k < sp)"
  have "\<forall>k<d. of_nat k * ci < mw"
  proof (intro allI impI)
    fix k assume "k < d"
    then have "(of_nat k :: rat) \<le> of_nat d" by simp
    with a have "of_nat k * ci \<le> of_nat d * ci" by (intro mult_right_mono) simp_all
    with a show "of_nat k * ci < mw" by simp
  qed
  with a have "quiet_before polls sp ci mw d" by (simp add: quiet_before_def)
  from ready_loop_gone [OF this] a
  show "is_file_ready_at s polls p sp ci mw = Some (Inr (False, of_nat d * ci))"
    by (simp add: is_file_ready_at_def)
next
  assume "is_file_ready s polls (Path_of file_path_arg) 2 (1 / 2) 30 = Some (Inr False)"
  then show "\<exists>r. organize_file cfg home polls s file_path_arg = Some (Skipped r, s)"
    by (rule organize_file_not_ready)
qed

theorem is_file_ready_false_witness:
  "is_file_ready_at example_fs steady (Path_of ''/dl/missing.bin'') 2 (1 / 2) 30
     = Some (Inr (False, 0))
   \<and> (\<exists>T\<ge>30. is_file_ready_at example_fs growing (Path_of ''/dl/photo.jpg'') 2 (1 / 2) 30
                  = Some (Inr (False, T)))
   \<and> is_file_ready_at example_fs vanishing (Path_of ''/dl/photo.jpg'') 2 (1 / 2) 30
       = Some (Inr (False, 1))
   \<and> (\<exists>r. organize_file example_cfg home_dir growing example_fs ''/dl/photo.jpg''
             = Some (Skipped r, example_fs))"
proof -
  have m: "exists example_fs (Path_of ''/dl/missing.bin'') = Inr False" by code_simp
  have e: "exists example_fs (Path_of ''/dl/photo.jpg'') = Inr True" by code_simp
  have g: "\<forall>k. of_nat k * (1 / 2) < (30 :: rat) \<longrightarrow>
             (\<exists>n. growing k = Size n) \<and> stable_elapsed growing (1 / 2) k < 2"
    by (simp add: stable_elapsed_growing) (simp add: growing_def)
  have v: "\<forall>k<2. (\<exists>n. vanishing k = Size n) \<and> stable_elapsed vanishing (1 / 2) k < 2"
  proof (intro allI impI)
    fix k :: nat assume "k < 2"
    then have "k = 0 \<or> k = 1" by auto
    then show "(\<exists>n. vanishing k = Size n) \<and> stable_elapsed vanishing (1 / 2) k < 2"
      by (auto simp: vanishing_def)
  qed
  have vg: "vanishing 2 = Gone" by (simp add: vanishing_def)
  have nr: "is_file_ready example_fs growing (Path_of ''/dl/photo.jpg'') 2 (1 / 2) 30
              = Some (Inr False)"
    by code_simp
  note t = is_file_ready_false
  from t [of example_fs "Path_of ''/dl/missing.bin''" steady 2 "1 / 2" 30] m
  have r1: "is_file_ready_at example_fs steady (Path_of ''/dl/missing.bin'') 2 (1 / 2) 30
              = Some (Inr (False, 0))"
    by blast
  from t [of example_fs "Path_of ''/dl/photo.jpg''" growing 2 "1 / 2" 30] e g
  have r2: "\<exists>T\<ge>30. is_file_ready_at example_fs growing (Path_of ''/dl/photo.jpg'') 2 (1 / 2) 30
                  = Some (Inr (False, T))"
    by simp
  from t [of example_fs "Path_of ''/dl/photo.jpg''" vanishing 2 "1 / 2" 30 2] e v vg
  have r3: "is_file_ready_at example_fs vanishing (Path_of ''/dl/photo.jpg'') 2 (1 / 2) 30
       = Some (Inr (False, 1))"
    by simp
  from t [of example_fs _ growing _ _ _ _ "''/dl/photo.jpg''" example_cfg home_dir] nr
  have r4: "\<exists>r. organize_file example_cfg home_dir growing example_fs ''/dl/photo.jpg''
             = Some (Skipped r, example_fs)"
    by blast
  from r1 r2 r3 r4 show ?thesis by blast
qed

text \<open>
  C8 (as amended). The loop returns \<open>True\<close> at the first poll at which the specification's
  counter reaches the threshold. With the defaults (threshold 2, interval 1/2, at most 30),
  for a file whose size stops growing at a moment \<open>g\<close> within the first three polls (the
  polls are at 0, 1/2 and 1) and stays as it is until the detecting poll, for which 2
  seconds and one poll interval from \<open>g\<close> are enough, the detector returns \<open>True\<close> at a time
  \<open>T\<close> with \<open>g + 2 \<le> T \<le> g + 2 + 1/2\<close>. Time is the sum of the sleeps.
\<close>

theorem readiness_timing:
  "(exists s p = Inr True \<and> 0 < sp
      \<and> (\<forall>k. k \<le> K \<longrightarrow> (\<exists>n. polls k = Size n) \<and> of_nat k * ci < mw)
      \<and> (\<forall>k<K. stable_elapsed polls ci k < sp) \<and> sp \<le> stable_elapsed polls ci K
    \<longrightarrow> is_file_ready_at s polls p sp ci mw = Some (Inr (True, of_nat K * ci)))
   \<and> (exists s p = Inr True \<and> 0 \<le> g \<and> g \<le> 1 \<and> (\<forall>t. 0 \<le> t \<and> t < g \<longrightarrow> sz t \<noteq> sz g)
        \<and> (\<forall>t. g \<le> t \<and> t < g + 2 + 1 / 2 \<longrightarrow> sz t = sz g)
      \<longrightarrow> (\<exists>T. is_file_ready_at s (\<lambda>k. Size (sz (of_nat k / 2))) p 2 (1 / 2) 30
                   = Some (Inr (True, T))
             \<and> g + 2 \<le> T \<and> T \<le> g + 2 + 1 / 2))"
proof (intro conjI impI)
  assume a: "exists s p = Inr True \<and> 0 < sp
      \<and> (\<forall>k. k \<le> K \<longrightarrow> (\<exists>n. polls k = Size n) \<and> of_nat k * ci < mw)
      \<and> (\<forall>k<K. stable_elapsed polls ci k < sp) \<and> sp \<le> stable_elapsed polls ci K"
  then have q: "quiet_before polls sp ci mw K" by (simp add: quiet_before_def)
  from a obtain n where n: "polls K = Size n" by blast
  from a have "of_nat K * ci < mw" by blast
  from ready_loop_ready [OF q this n] a
  show "is_file_ready_at s polls p sp ci mw = Some (Inr (True, of_nat K * ci))"
    by (simp add: is_file_ready_at_def)
next
  assume a: "exists s p = Inr True \<and> 0 \<le> g \<and> g \<le> 1 \<and> (\<forall>t. 0 \<le> t \<and> t < g \<longrightarrow> sz t \<noteq> sz g)
        \<and> (\<forall>t. g \<le> t \<and> t < g + 2 + 1 / 2 \<longrightarrow> sz t = sz g)"
  then have h: "0 \<le> g" "g \<le> 1" "\<forall>t. 0 \<le> t \<and> t < g \<longrightarrow> sz t \<noteq> sz g"
      "\<forall>t. g \<le> t \<and> t < g + 2 + 1 / 2 \<longrightarrow> sz t = sz g"
    by blast+
  have "\<exists>K. ready_loop (\<lambda>k. Size (sz (of_nat k / 2))) 2 (1 / 2) 30 0 (- 1) 0 0
                 = Some (True, of_nat K / 2)
           \<and> g + 2 \<le> of_nat K / 2 \<and> of_nat K / 2 \<le> g + 2 + 1 / 2
           \<and> 2 \<le> stable_elapsed (\<lambda>k. Size (sz (of_nat k / 2))) (1 / 2) K
           \<and> (\<forall>k<K. stable_elapsed (\<lambda>k. Size (sz (of_nat k / 2))) (1 / 2) k < 2)"
    by (rule growth_then_stable [OF h])
  moreover from a have "exists s p = Inr True" by blast
  ultimately show "\<exists>T. is_file_ready_at s (\<lambda>k. Size (sz (of_nat k / 2))) p 2 (1 / 2) 30
                          = Some (Inr (True, T))
             \<and> g + 2 \<le> T \<and> T \<le> g + 2 + 1 / 2"
    unfolding is_file_ready_at_def by auto
qed

text \<open>
  C8 as stated fails: a size that grows over the polls at 0, 1/2 and 1, stops growing at
  3/4 and stays for 2.05 seconds, until 2.8, but changes before the poll at 3, is judged
  ready at 5 only, later than 3/4 + 2 + 1/2: the change sets the counter back to 0.
\<close>

theorem readiness_timing_late_write_counterexample:
  "bump_late 0 < bump_late (1 / 2) \<and> bump_late (1 / 2) < bump_late 1
   \<and> \<not> (\<exists>t. 0 \<le> t \<and> t < 3 / 4 \<and> bump_late t = bump_late (3 / 4))
   \<and> \<not> (\<exists>t. 3 / 4 \<le> t \<and> t \<le> 3 / 4 + 2 + 1 / 20 \<and> bump_late t \<noteq> bump_late (3 / 4))
   \<and> exists example_fs (Path_of ''/dl/photo.jpg'') = Inr True
   \<and> is_file_ready_at example_fs (\<lambda>k. Size (bump_late (of_nat k / 2)))
        (Path_of ''/dl/photo.jpg'') 2 (1 / 2) 30 = Some (Inr (True, 5))
   \<and> \<not> ((5 :: rat) \<le> 3 / 4 + 2 + 1 / 2)"
proof -
  have "bump_late 0 < bump_late (1 / 2) \<and> bump_late (1 / 2) < bump_late 1"
    by (simp add: bump_late_def)
  moreover have "\<not> (\<exists>t. 0 \<le> t \<and> t < 3 / 4 \<and> bump_late t = bump_late (3 / 4))"
    by (auto simp: bump_late_def)
  moreover have "\<not> (\<exists>t. 3 / 4 \<le> t \<and> t \<le> 3 / 4 + 2 + 1 / 20 \<and> bump_late t \<noteq> bump_late (3 / 4))"
    by (auto simp: bump_late_def)
  moreover have "exists example_fs (Path_of ''/dl/photo.jpg'') = Inr True" by code_simp
  moreover have "\<not> ((5 :: rat) \<le> 3 / 4 + 2 + 1 / 2)" by simp
  ultimately show ?thesis using bump_late_run by blast
qed

theorem readiness_timing_witness:
  "exists example_fs (Path_of ''/dl/photo.jpg'') = Inr True
   \<and> is_file_ready_at example_fs (\<lambda>k. Size (three_polls (of_nat k / 2)))
        (Path_of ''/dl/photo.jpg'') 2 (1 / 2) 30 = Some (Inr (True, 3))
   \<and> (3 / 4 :: rat) + 2 \<le> 3 \<and> (3 :: rat) \<le> 3 / 4 + 2 + 1 / 2
   \<and> is_file_ready_at example_fs steady (Path_of ''/dl/photo.jpg'') 2 (1 / 2) 30
       = Some (Inr (True, of_nat 4 * (1 / 2)))"
proof -
  have e: "exists example_fs (Path_of ''/dl/photo.jpg'') = Inr True" by code_simp
  have g1: "\<forall>t. 0 \<le> t \<and> t < 3 / 4 \<longrightarrow> three_polls t \<noteq> three_polls (3 / 4)"
    by (simp add: three_polls_def)
  have g2: "\<forall>t. 3 / 4 \<le> t \<and> t < 3 / 4 + 2 + 1 / 2 \<longrightarrow> three_polls t = three_polls (3 / 4)"
    by (simp add: three_polls_def)
  have s1: "\<forall>k. k \<le> 4 \<longrightarrow> (\<exists>n. steady k = Size n) \<and> of_nat k * (1 / 2) < (30 :: rat)"
  proof (intro allI impI)
    fix k :: nat assume "k \<le> 4"
    then have "(of_nat k :: rat) \<le> 4" by simp
    then show "(\<exists>n. steady k = Size n) \<and> of_nat k * (1 / 2) < (30 :: rat)"
      by (simp add: steady_def)
  qed
  have s2: "\<forall>k<4. stable_elapsed steady (1 / 2) k < 2"
  proof (intro allI impI)
    fix k :: nat assume "k < 4"
    then have "(of_nat k :: rat) < 4" by simp
    then show "stable_elapsed steady (1 / 2) k < 2" by (simp add: stable_elapsed_steady)
  qed
  have s3: "2 \<le> stable_elapsed steady (1 / 2) 4" by (simp add: stable_elapsed_steady)
  have z: "(0 :: rat) < 2" "(0 :: rat) \<le> 3 / 4" "(3 / 4 :: rat) \<le> 1" by simp_all
  note t = readiness_timing [of example_fs "Path_of ''/dl/photo.jpg''" 2 4 steady "1 / 2" 30
      "3 / 4" three_polls]
  from t have "is_file_ready_at example_fs steady (Path_of ''/dl/photo.jpg'') 2 (1 / 2) 30
       = Some (Inr (True, of_nat 4 * (1 / 2)))"
    using e s1 s2 s3 z(1) by blast
  moreover from t obtain T where "is_file_ready_at example_fs (\<lambda>k. Size (three_polls (of_nat k / 2)))
        (Path_of ''/dl/photo.jpg'') 2 (1 / 2) 30 = Some (Inr (True, T))"
      "3 / 4 + 2 \<le> T" "T \<le> 3 / 4 + 2 + 1 / 2"
    using e g1 g2 z(2,3) by blast
  ultimately show ?thesis using e three_polls_run by auto
qed

section \<open>The orchestrator: the properties\<close>

text \<open>
  C5. Every run of \<^verbatim>\<open>organize_file\<close> ends, and in exactly one outcome: the \<^verbatim>\<open>try\<close> block
  either returns or raises, and an exception raised in it becomes the outcome \<open>Failed\<close>; no
  exception leaves the function.
\<close>

theorem organize_file_one_outcome:
  "\<exists>r. organize_try cfg home polls s file_path_arg = Some r
        \<and> organize_file cfg home polls s file_path_arg
            = Some (case r of Inl (e, s') \<Rightarrow> (Failed e, s') | Inr x \<Rightarrow> x)"
proof -
  obtain r where "organize_try cfg home polls s file_path_arg = Some r"
    using organize_try_total by blast
  then show ?thesis
    by (auto simp: organize_file_def split: sum.splits)
qed

theorem organize_file_one_outcome_witness:
  "organize_file example_cfg home_dir steady locked_fs ''/dl/photo.jpg''
     = Some (Failed PermissionError, locked_fs)
   \<and> organize_file example_cfg home_dir steady example_fs ''/dl/unknown.xyz''
     = Some (Moved (Path_of ''/dl/unknown.xyz'') (Path_of ''/dl/Others/unknown.xyz'') ''Others'',
             others_fs\<lparr>files := [Path_of ''/dl/Others/unknown.xyz'', Path_of ''/dl/photo.jpg'',
                                   Path_of ''/dl/Images/photo.jpg'', Path_of ''/dl/report.pdf'']\<rparr>)"
proof -
  from organize_file_one_outcome [of example_cfg home_dir steady locked_fs "''/dl/photo.jpg''"]
  have r1: "organize_file example_cfg home_dir steady locked_fs ''/dl/photo.jpg''
     = Some (Failed PermissionError, locked_fs)"
    unfolding failed_run by simp
  from organize_file_one_outcome [of example_cfg home_dir steady example_fs "''/dl/unknown.xyz''"]
  have r2: "organize_file example_cfg home_dir steady example_fs ''/dl/unknown.xyz''
     = Some (Moved (Path_of ''/dl/unknown.xyz'') (Path_of ''/dl/Others/unknown.xyz'') ''Others'',
             others_fs\<lparr>files := [Path_of ''/dl/Others/unknown.xyz'', Path_of ''/dl/photo.jpg'',
                                   Path_of ''/dl/Images/photo.jpg'', Path_of ''/dl/report.pdf'']\<rparr>)"
    unfolding others_run by simp
  from r1 r2 show ?thesis by (rule conjI)
qed




text \<open>
  C6 (as amended). \<^verbatim>\<open>get_destination_path\<close> returns \<open>None\<close>, and leaves the file system as
  it is, exactly when the category is a key of the configuration whose folder is missing or
  empty, whatever the category is called. For a category that is no key of the
  configuration it falls back to \<^verbatim>\<open>downloads_folder / "Others"\<close>: the folder is made if
  missing and the path in it is returned, or the exception of \<^verbatim>\<open>mkdir\<close> is raised. When the
  resolver returns \<open>None\<close> for a file, \<^verbatim>\<open>organize_file\<close> ends in a skip with nothing changed;
  a path whose existence probe raises never reaches the resolver, and that exception is
  caught.
\<close>

theorem get_destination_path_resolves:
  "(get_destination_path cfg home s file_path category = (Inr None, s')
      \<longleftrightarrow> s' = s \<and> (\<exists>info. map_of (get_or (categories cfg) []) category = Some info
                        \<and> (folder_path info = None \<or> folder_path info = Some '''')))
   \<and> (map_of (get_or (categories cfg) []) category = None
      \<longrightarrow> (case mkdir_parents s (joinpath (configured_downloads cfg home) ''Others'') of
             (Some e, s1) \<Rightarrow> get_destination_path cfg home s file_path category = (Inl e, s1)
           | (None, s1) \<Rightarrow>
               get_destination_path cfg home s file_path category
                 = (Inr (Some (joinpath (joinpath (configured_downloads cfg home) ''Others'')
                                 (path_name (Path_of file_path)))), s1)
               \<and> is_dir s1 (joinpath (configured_downloads cfg home) ''Others'') = Inr True))
   \<and> (get_destination_path cfg home s (path_str (Path_of file_path_arg))
         (get_file_category cfg (path_str (Path_of file_path_arg))) = (Inr None, s')
      \<longrightarrow> (case exists s (Path_of file_path_arg) of
             Inl e \<Rightarrow> organize_file cfg home polls s file_path_arg = Some (Failed e, s)
           | Inr found \<Rightarrow>
               (\<exists>r. organize_file cfg home polls s file_path_arg = Some (Skipped r, s))))"
proof (intro conjI impI)
  show "get_destination_path cfg home s file_path category = (Inr None, s')
      \<longleftrightarrow> s' = s \<and> (\<exists>info. map_of (get_or (categories cfg) []) category = Some info
                        \<and> (folder_path info = None \<or> folder_path info = Some ''''))"
    by (auto simp: get_destination_path_def Let_def split: option.splits sum.splits prod.splits)
next
  assume n: "map_of (get_or (categories cfg) []) category = None"
  let ?o = "joinpath (configured_downloads cfg home) ''Others''"
  obtain eo s1 where m: "mkdir_parents s ?o = (eo, s1)" by (cases "mkdir_parents s ?o")
  show "case mkdir_parents s ?o of
          (Some e, s1) \<Rightarrow> get_destination_path cfg home s file_path category = (Inl e, s1)
        | (None, s1) \<Rightarrow>
            get_destination_path cfg home s file_path category
              = (Inr (Some (joinpath ?o (path_name (Path_of file_path)))), s1)
            \<and> is_dir s1 ?o = Inr True"
  proof (cases eo)
    case (Some e)
    with n m show ?thesis by (simp add: get_destination_path_def)
  next
    case None
    with m have m': "mkdir_parents s ?o = (None, s1)" by simp
    from mkdir_parents_again [OF m'] mkdir_parents_made [OF m'] m' n show ?thesis
      by (simp add: get_destination_path_def)
  qed
next
  assume g: "get_destination_path cfg home s (path_str (Path_of file_path_arg))
         (get_file_category cfg (path_str (Path_of file_path_arg))) = (Inr None, s')"
  obtain b where b: "is_file_ready s polls (Path_of file_path_arg) 2 (1 / 2) 30 = Some b"
    using is_file_ready_default by blast
  from g have s': "s' = s"
    by (auto simp: get_destination_path_def Let_def
             split: option.splits sum.splits if_splits prod.splits)
  show "case exists s (Path_of file_path_arg) of
          Inl e \<Rightarrow> organize_file cfg home polls s file_path_arg = Some (Failed e, s)
        | Inr found \<Rightarrow> (\<exists>r. organize_file cfg home polls s file_path_arg = Some (Skipped r, s))"
  proof (cases "exists s (Path_of file_path_arg)")
    case (Inl e)
    then show ?thesis by (simp add: organize_file_def organize_try_def Let_def)
  next
    case (Inr found)
    then obtain d where d: "is_dir s (Path_of file_path_arg) = Inr d"
      using is_dir_error [of s "Path_of file_path_arg"]
      by (cases "is_dir s (Path_of file_path_arg)") auto
    from Inr b obtain rb where rb: "b = Inr rb"
      by (cases b) (auto simp: is_file_ready_def is_file_ready_at_def split: if_splits)
    from g s' b rb Inr d show ?thesis
      by (simp add: organize_file_def organize_try_def Let_def)
  qed
qed

text \<open>
  C6 as stated fails: \<^verbatim>\<open>"Others"\<close> is no special name to the resolver. When the
  configuration has a category \<^verbatim>\<open>"Others"\<close> without a folder, the category of an unmatched
  file is looked up like any other and the result is \<open>None\<close>, not the fallback folder.
\<close>

theorem get_destination_path_others_counterexample:
  "get_file_category others_gap_cfg ''/dl/unknown.xyz'' = ''Others''
   \<and> map_of (get_or (categories others_gap_cfg) []) ''Others'' \<noteq> None
   \<and> get_destination_path others_gap_cfg home_dir example_fs ''/dl/unknown.xyz'' ''Others''
       = (Inr None, example_fs)"
  by code_simp

theorem get_destination_path_resolves_witness:
  "get_destination_path example_cfg home_dir example_fs ''/dl/report.pdf'' ''Documents''
     = (Inr None, example_fs)
   \<and> map_of (get_or (categories example_cfg) []) ''Others'' = None
   \<and> get_destination_path example_cfg home_dir example_fs ''/dl/unknown.xyz'' ''Others''
       = (Inr (Some (Path_of ''/dl/Others/unknown.xyz'')), others_fs)
   \<and> is_dir others_fs (Path_of ''/dl/Others'') = Inr True
   \<and> (\<exists>r. organize_file example_cfg home_dir steady example_fs ''/dl/report.pdf''
             = Some (Skipped r, example_fs))"
proof -
  from get_destination_path_resolves [where cfg = example_cfg and home = home_dir
      and s = example_fs and file_path = "''/dl/report.pdf''" and category = "''Documents''"
      and s' = example_fs]
    resolver_examples(1,2)
  have r1: "get_destination_path example_cfg home_dir example_fs ''/dl/report.pdf'' ''Documents''
     = (Inr None, example_fs)"
    by blast
  from conjunct1 [OF conjunct2 [OF get_destination_path_resolves [where cfg = example_cfg
      and home = home_dir and s = example_fs and file_path = "''/dl/unknown.xyz''"
      and category = "''Others''"]]]
    resolver_examples(3)
  have "case mkdir_parents example_fs (joinpath (configured_downloads example_cfg home_dir) ''Others'') of
             (Some e, s1) \<Rightarrow> get_destination_path example_cfg home_dir example_fs ''/dl/unknown.xyz'' ''Others'' = (Inl e, s1)
           | (None, s1) \<Rightarrow>
               get_destination_path example_cfg home_dir example_fs ''/dl/unknown.xyz'' ''Others''
                 = (Inr (Some (joinpath (joinpath (configured_downloads example_cfg home_dir) ''Others'')
                                (path_name (Path_of ''/dl/unknown.xyz'')))), s1)
               \<and> is_dir s1 (joinpath (configured_downloads example_cfg home_dir) ''Others'') = Inr True"
    by (rule mp)
  then have r2: "get_destination_path example_cfg home_dir example_fs ''/dl/unknown.xyz'' ''Others''
       = (Inr (Some (Path_of ''/dl/Others/unknown.xyz'')), others_fs)
       \<and> is_dir others_fs (Path_of ''/dl/Others'') = Inr True"
    by (simp add: resolver_examples(4,5,6))
  from r1 have "get_destination_path example_cfg home_dir example_fs
        (path_str (Path_of ''/dl/report.pdf''))
        (get_file_category example_cfg (path_str (Path_of ''/dl/report.pdf'')))
      = (Inr None, example_fs)"
    unfolding resolver_examples(7) resolver_examples(8) .
  with get_destination_path_resolves [where cfg = example_cfg and home = home_dir
      and s = example_fs and s' = example_fs and file_path_arg = "''/dl/report.pdf''"
      and polls = steady]
  have "case exists example_fs (Path_of ''/dl/report.pdf'') of
          Inl e \<Rightarrow> organize_file example_cfg home_dir steady example_fs ''/dl/report.pdf''
                      = Some (Failed e, example_fs)
        | Inr found \<Rightarrow> (\<exists>r. organize_file example_cfg home_dir steady example_fs ''/dl/report.pdf''
                             = Some (Skipped r, example_fs))"
    by blast
  then have r3: "\<exists>r. organize_file example_cfg home_dir steady example_fs ''/dl/report.pdf''
             = Some (Skipped r, example_fs)"
    by (simp add: resolver_examples(9))
  from r1 r2 r3 resolver_examples(3) show ?thesis by blast
qed

text \<open>
  C7. A file whose parent is not exactly the configured downloads folder is skipped with
  the file system unchanged, at the scope guard or at a guard before it, whatever its
  extension; so is every file in a subfolder of the downloads folder. This holds for every
  path whose existence probe answers, whether the file is there or not; for a path whose
  probe raises, the run fails at the first check, with the file system unchanged as well.
\<close>

theorem organize_file_scope_guard:
  "(path_parent (Path_of file_path_arg) \<noteq> configured_downloads cfg home
      \<longrightarrow> (case exists s (Path_of file_path_arg) of
             Inl e \<Rightarrow> organize_file cfg home polls s file_path_arg = Some (Failed e, s)
           | Inr found \<Rightarrow>
               (\<exists>r. organize_file cfg home polls s file_path_arg = Some (Skipped r, s)
                  \<and> (r = NotFound \<or> r = HiddenOrTemporary \<or> r = NotInDownloads))))
   \<and> (sub \<noteq> [] \<and> path_parent (Path_of file_path_arg)
          = Path (anchor (configured_downloads cfg home))
                 (parts (configured_downloads cfg home) @ sub)
      \<longrightarrow> (case exists s (Path_of file_path_arg) of
             Inl e \<Rightarrow> organize_file cfg home polls s file_path_arg = Some (Failed e, s)
           | Inr found \<Rightarrow>
               (\<exists>r. organize_file cfg home polls s file_path_arg = Some (Skipped r, s)
                  \<and> (r = NotFound \<or> r = HiddenOrTemporary \<or> r = NotInDownloads))))"
proof (intro conjI impI)
  assume "path_parent (Path_of file_path_arg) \<noteq> configured_downloads cfg home"
  from organize_file_out_of_scope [OF this, where s = s and polls = polls]
  show "case exists s (Path_of file_path_arg) of
          Inl e \<Rightarrow> organize_file cfg home polls s file_path_arg = Some (Failed e, s)
        | Inr found \<Rightarrow>
            (\<exists>r. organize_file cfg home polls s file_path_arg = Some (Skipped r, s)
               \<and> (r = NotFound \<or> r = HiddenOrTemporary \<or> r = NotInDownloads))"
    by (auto split: sum.splits)
next
  assume a: "sub \<noteq> [] \<and> path_parent (Path_of file_path_arg)
          = Path (anchor (configured_downloads cfg home))
                 (parts (configured_downloads cfg home) @ sub)"
  have "path_parent (Path_of file_path_arg) \<noteq> configured_downloads cfg home"
  proof
    assume "path_parent (Path_of file_path_arg) = configured_downloads cfg home"
    with a have "parts (configured_downloads cfg home) = parts (configured_downloads cfg home) @ sub"
      by (metis path.sel(2))
    with a show False by simp
  qed
  from organize_file_out_of_scope [OF this, where s = s and polls = polls]
  show "case exists s (Path_of file_path_arg) of
          Inl e \<Rightarrow> organize_file cfg home polls s file_path_arg = Some (Failed e, s)
        | Inr found \<Rightarrow>
            (\<exists>r. organize_file cfg home polls s file_path_arg = Some (Skipped r, s)
               \<and> (r = NotFound \<or> r = HiddenOrTemporary \<or> r = NotInDownloads))"
    by (auto split: sum.splits)
qed

theorem organize_file_scope_guard_witness:
  "exists example_fs (Path_of ''/dl/Images/photo.jpg'') = Inr True
   \<and> get_file_category example_cfg ''/dl/Images/photo.jpg'' = ''Images''
   \<and> (\<exists>r. organize_file example_cfg home_dir steady example_fs ''/dl/Images/photo.jpg''
             = Some (Skipped r, example_fs)
           \<and> (r = NotFound \<or> r = HiddenOrTemporary \<or> r = NotInDownloads))
   \<and> (\<exists>r. organize_file example_cfg home_dir steady example_fs ''/tmp/photo.jpg''
             = Some (Skipped r, example_fs)
           \<and> (r = NotFound \<or> r = HiddenOrTemporary \<or> r = NotInDownloads))"
proof -
  have n: "[''Images''] \<noteq> ([] :: string list)" by simp
  from organize_file_scope_guard [where file_path_arg = "''/dl/Images/photo.jpg''"
      and cfg = example_cfg and home = home_dir and s = example_fs and polls = steady
      and sub = "[''Images'']"] n scope_examples(1)
  have "case exists example_fs (Path_of ''/dl/Images/photo.jpg'') of
          Inl e \<Rightarrow> organize_file example_cfg home_dir steady example_fs ''/dl/Images/photo.jpg''
                      = Some (Failed e, example_fs)
        | Inr found \<Rightarrow>
            (\<exists>r. organize_file example_cfg home_dir steady example_fs ''/dl/Images/photo.jpg''
                    = Some (Skipped r, example_fs)
               \<and> (r = NotFound \<or> r = HiddenOrTemporary \<or> r = NotInDownloads))"
    by blast
  then have r1: "\<exists>r. organize_file example_cfg home_dir steady example_fs ''/dl/Images/photo.jpg''
             = Some (Skipped r, example_fs)
           \<and> (r = NotFound \<or> r = HiddenOrTemporary \<or> r = NotInDownloads)"
    by (simp add: scope_examples(3))
  from organize_file_scope_guard [where file_path_arg = "''/tmp/photo.jpg''"
      and cfg = example_cfg and home = home_dir and s = example_fs and polls = steady]
    scope_examples(2)
  have "case exists example_fs (Path_of ''/tmp/photo.jpg'') of
          Inl e \<Rightarrow> organize_file example_cfg home_dir steady example_fs ''/tmp/photo.jpg''
                      = Some (Failed e, example_fs)
        | Inr found \<Rightarrow>
            (\<exists>r. organize_file example_cfg home_dir steady example_fs ''/tmp/photo.jpg''
                    = Some (Skipped r, example_fs)
               \<and> (r = NotFound \<or> r = HiddenOrTemporary \<or> r = NotInDownloads))"
    by blast
  then have r2: "\<exists>r. organize_file example_cfg home_dir steady example_fs ''/tmp/photo.jpg''
             = Some (Skipped r, example_fs)
           \<and> (r = NotFound \<or> r = HiddenOrTemporary \<or> r = NotInDownloads)"
    by (simp add: scope_examples(5))
  from r1 r2 scope_examples(3,4) show ?thesis by blast
qed

end
